theory Spec2Isabelle
  imports Main "HOL-Library.Sublist" "HOL-Library.List_Lexorder" "HOL-Library.Char_ord"
begin

section \<open>The async test event loop (asyncTest-private.hpp)\<close>

text \<open>
  A shallow embedding of class \<open>test::EventLoop\<close> and its nested \<open>DoneItem\<close>.
  Member functions take the object as an explicit state and return it updated. A C++
  exception is the value \<open>Some e\<close> in the first component of the result, next to the state
  the object has at the moment of the throw (the members assigned before a throw stay
  assigned). Behaviour the C++ standard leaves undefined is an exception value of its own,
  so that no theorem can rely on it silently.

  The model follows the thread that calls \<open>run\<close>. The mutex, and what other threads do to
  the loop while \<open>run\<close> sleeps, are not part of it, and neither is what the logging macros
  print.
\<close>

subsection \<open>Exceptions, undefined behaviour, C integers\<close>

datatype ub = ModuloByZero | SignedOverflow | OutOfBoundsRead | InvalidIterator

datatype exn = RuntimeError string | Undefined ub

text \<open>\<open>Ts\<close> is \<open>long long\<close>: a millisecond timestamp; it is kept unbounded here.\<close>

type_synonym Ts = int

definition INT_MIN :: int where
  "INT_MIN = - (2 ^ 31)"

definition INT_MAX :: int where
  "INT_MAX = 2 ^ 31 - 1"

definition fits_int :: "int \<Rightarrow> bool" where
  "fits_int x \<longleftrightarrow> INT_MIN \<le> x \<and> x \<le> INT_MAX"

text \<open>C++ \<open>/\<close> and \<open>%\<close> on \<open>int\<close> truncate towards zero; the divisor is checked by the caller.\<close>

definition c_div :: "int \<Rightarrow> int \<Rightarrow> int" where
  "c_div a b = sgn a * sgn b * (\<bar>a\<bar> div \<bar>b\<bar>)"

definition c_mod :: "int \<Rightarrow> int \<Rightarrow> int" where
  "c_mod a b = sgn a * (\<bar>a\<bar> mod \<bar>b\<bar>)"

fun digits :: "nat \<Rightarrow> string" where
  "digits n = (if n < 10 then [''0123456789'' ! n]
               else digits (n div 10) @ [''0123456789'' ! (n mod 10)])"

text \<open>\<open>std::to_string(int)\<close>.\<close>

definition to_string :: "int \<Rightarrow> string" where
  "to_string i = (if i < 0 then CHR ''-'' # digits (nat (- i)) else digits (nat i))"

text \<open>The apostrophe, which a string literal cannot end with.\<close>

definition apos :: string where
  "apos = [CHR 0x27]"

text \<open>Whether a message contains a given piece of text.\<close>

fun cites :: "string \<Rightarrow> string \<Rightarrow> bool" where
  "cites [] w = (w = [])"
| "cites (c # cs) w = (prefix w (c # cs) \<or> cites cs w)"

subsection \<open>The state enum\<close>

definition SCHED_IN_ORDER :: int where "SCHED_IN_ORDER = 0"
definition ASYNC_COMPLETE_NOT :: int where "ASYNC_COMPLETE_NOT = 0"
definition ASYNC_COMPLETE_SUCCESS :: int where "ASYNC_COMPLETE_SUCCESS = 1"
definition ASYNC_COMPLETE_ERROR :: int where "ASYNC_COMPLETE_ERROR = 2"
definition ASYNC_COMPLETE_ABORTED :: int where "ASYNC_COMPLETE_ABORTED = 3"

subsection \<open>completeCodeToString\<close>

definition strings :: "string list" where
  "strings = [''ASYNC_COMPLETE_NOT'', ''ASYNC_COMPLETE_SUCCESS'', ''ASYNC_COMPLETE_ERROR'']"

text \<open>
  The check compares with \<open>sizeof(strings)/sizeof(strings[0])\<close>, the number of entries.
  Reading \<open>strings[code]\<close> at or beyond that number is an out-of-bounds read.
\<close>

definition completeCodeToString :: "int \<Rightarrow> exn + string" where
  "completeCodeToString code =
     (if code < 0 \<or> code > int (length strings)
      then Inl (RuntimeError (''Invalid code value '' @ to_string code))
      else if nat code < length strings then Inr (strings ! nat code)
      else Inl (Undefined OutOfBoundsRead))"

subsection \<open>DoneItem\<close>

text \<open>
  \<open>schedItem\<close> is an iterator into the scheduling queue. Every queue entry carries a
  number that no other entry shares, and the iterator is that number; \<open>None\<close> is the
  default-constructed (singular) iterator.
\<close>

record DoneItem =
  tag :: string
  complete :: int
  deadline :: Ts
  order :: int
  schedItem :: "nat option"

text \<open>\<open>DoneItem(const char* aTag)\<close> with the default member initialisers.\<close>

definition DoneItem1 :: "string \<Rightarrow> DoneItem" where
  "DoneItem1 aTag = \<lparr>tag = aTag, complete = 0, deadline = - 1, order = 0, schedItem = None\<rparr>"

definition setVal :: "string \<Rightarrow> int \<Rightarrow> DoneItem \<Rightarrow> exn + DoneItem" where
  "setVal name val item =
     (if name = ''timeout'' \<or> name = ''tmo'' then Inr (item\<lparr>deadline := val\<rparr>)
      else if name = ''order'' then Inr (item\<lparr>order := val\<rparr>)
      else Inl (RuntimeError (''Unknown property '' @ apos @ name @ apos @ apos @
                  '' of done() with tag '' @ apos @ tag item @ apos)))"

text \<open>\<open>DoneItem(aTag, name1, val1)\<close> and \<open>DoneItem(aTag, name1, val1, name2, val2)\<close>.\<close>

definition DoneItem3 :: "string \<Rightarrow> string \<Rightarrow> int \<Rightarrow> exn + DoneItem" where
  "DoneItem3 aTag name1 val1 = setVal name1 val1 (DoneItem1 aTag)"

definition DoneItem5 :: "string \<Rightarrow> string \<Rightarrow> int \<Rightarrow> string \<Rightarrow> int \<Rightarrow> exn + DoneItem" where
  "DoneItem5 aTag name1 val1 name2 val2 =
     (case setVal name1 val1 (DoneItem1 aTag) of
        Inl e \<Rightarrow> Inl e
      | Inr item \<Rightarrow> setVal name2 val2 item)"

subsection \<open>Scheduled calls and the queue\<close>

text \<open>
  A scheduled call is an arbitrary closure in the source. The closures modelled here are
  sequences of what a test does with the loop from inside a callback: calls of the member
  functions \<open>done\<close>, \<open>error\<close>, \<open>abort\<close> and \<open>schedCall\<close>, assignments to the public data
  members \<open>errorMsg\<close> and \<open>jitterPct\<close>, and try blocks, run in order until one throws.
  \<open>CallTry body handler\<close> is \<open>try { body } catch (std::exception&) { handler }\<close>, and
  \<open>Elapse n\<close> stands for \<open>n\<close> milliseconds of other work. The closure that
  \<open>addDoneToLoop\<close> builds is \<open>DoneTimeout\<close>.
\<close>

datatype call =
    CallDone string
  | CallError string
  | CallErrorTag string string
  | CallAbort
  | CallSched "call list" int int
  | Elapse nat
  | SetErrorMsg string
  | SetJitterPct int
  | CallTry "call list" "call list"

datatype SchedItem = UserCall "call list" | DoneTimeout string

text \<open>
  \<open>std::multimap<Ts, ...>\<close>: entries in ascending key order, equal keys in insertion
  order. Each entry is (timestamp, iterator number, call).
\<close>

type_synonym SchedQueue = "(Ts \<times> nat \<times> SchedItem) list"

fun emplace :: "Ts \<Rightarrow> nat \<Rightarrow> SchedItem \<Rightarrow> SchedQueue \<Rightarrow> SchedQueue" where
  "emplace ts h c [] = [(ts, h, c)]"
| "emplace ts h c (e # q) = (if ts < fst e then (ts, h, c) # e # q else e # emplace ts h c q)"

text \<open>\<open>erase(iterator)\<close>: undefined unless the iterator points to an entry of the queue.\<close>

definition erase :: "nat option \<Rightarrow> SchedQueue \<Rightarrow> exn + SchedQueue" where
  "erase it q =
     (case it of
        None \<Rightarrow> Inl (Undefined InvalidIterator)
      | Some h \<Rightarrow>
          if h \<in> set (map (\<lambda>e. fst (snd e)) q)
          then Inr (filter (\<lambda>e. fst (snd e) \<noteq> h) q)
          else Inl (Undefined InvalidIterator))"

subsection \<open>The map of done() items\<close>

text \<open>\<open>std::map<std::string, DoneItem>\<close>: an association list in ascending key order.\<close>

type_synonym DoneMap = "(string \<times> DoneItem) list"

text \<open>\<open>insert\<close> leaves the map as it is when the key is there, and says so.\<close>

fun map_insert :: "string \<Rightarrow> DoneItem \<Rightarrow> DoneMap \<Rightarrow> DoneMap \<times> bool" where
  "map_insert k v [] = ([(k, v)], True)"
| "map_insert k v (e # m) =
     (if k = fst e then (e # m, False)
      else if k < fst e then ((k, v) # e # m, True)
      else (e # fst (map_insert k v m), snd (map_insert k v m)))"

text \<open>Assignment through a reference or an iterator to the entry with key \<open>k\<close>.\<close>

definition map_modify :: "string \<Rightarrow> (DoneItem \<Rightarrow> DoneItem) \<Rightarrow> DoneMap \<Rightarrow> DoneMap" where
  "map_modify k f m = map (\<lambda>e. if fst e = k then (fst e, f (snd e)) else e) m"

subsection \<open>EventLoop\<close>

text \<open>
  The members of the class, then what the class reads from its environment:
  \<open>clock\<close> is the wall clock that \<open>getTimeMs\<close> reads, \<open>randSeq\<close> the values that successive
  calls of \<open>rand()\<close> return and \<open>randCalls\<close> how many were made, \<open>nextIter\<close> the number the
  next queue entry gets, and \<open>doneCalls\<close> the tags that user callbacks have passed to
  \<open>done\<close>, oldest first. No member function reads \<open>doneCalls\<close>.
\<close>

record EventLoop =
  mLastOrderTs :: Ts
  mLastOrderedDoneNo :: int
  mNextEventTs :: Ts
  jitterPct :: int
  kColorSuccess :: string
  kColorFail :: string
  kColorNormal :: string
  kColorTag :: string
  kColorWarning :: string
  mSchedQueue :: SchedQueue
  mDones :: DoneMap
  defaultDoneTimeout :: int
  mHasDefaultDone :: bool
  mComplete :: int
  mErrorTag :: string
  errorMsg :: string
  clock :: Ts
  randSeq :: "nat \<Rightarrow> nat"
  randCalls :: nat
  nextIter :: nat
  doneCalls :: "string list"

definition TESTLOOP_DEFAULT_DONE_TIMEOUT :: int where
  "TESTLOOP_DEFAULT_DONE_TIMEOUT = 2000"

text \<open>The default member initialisers, at wall-clock time \<open>t\<close> and with random source \<open>r\<close>.\<close>

definition members_init :: "Ts \<Rightarrow> (nat \<Rightarrow> nat) \<Rightarrow> int \<Rightarrow> EventLoop" where
  "members_init t r timeout =
     \<lparr>mLastOrderTs = 0, mLastOrderedDoneNo = 0, mNextEventTs = 0xFFFFFFFFFFFFFFF,
      jitterPct = 50, kColorSuccess = [], kColorFail = [], kColorNormal = [],
      kColorTag = [], kColorWarning = [], mSchedQueue = [], mDones = [],
      defaultDoneTimeout = timeout, mHasDefaultDone = False, mComplete = 0,
      mErrorTag = [], errorMsg = [], clock = t, randSeq = r, randCalls = 0,
      nextIter = 0, doneCalls = []\<rparr>"

definition getTimeMs :: "EventLoop \<Rightarrow> Ts" where
  "getTimeMs s = clock s"

text \<open>\<open>sleep\<close> returns when the wall clock has advanced by the time asked for.\<close>

definition sleep :: "Ts \<Rightarrow> EventLoop \<Rightarrow> EventLoop" where
  "sleep ms s = s\<lparr>clock := clock s + ms\<rparr>"

definition rand :: "EventLoop \<Rightarrow> int \<times> EventLoop" where
  "rand s = (int (randSeq s (randCalls s)), s\<lparr>randCalls := randCalls s + 1\<rparr>)"

definition initColors :: "bool \<Rightarrow> EventLoop \<Rightarrow> EventLoop" where
  "initColors isatty s =
     (if \<not> isatty then s
      else s\<lparr>kColorSuccess := CHR 0x1B # ''[1;32m'', kColorFail := CHR 0x1B # ''[1;31m'',
             kColorNormal := CHR 0x1B # ''[0m'', kColorTag := CHR 0x1B # ''[34m'',
             kColorWarning := CHR 0x1B # ''[33m''\<rparr>)"

definition usageError :: "string \<Rightarrow> EventLoop \<Rightarrow> exn option \<times> EventLoop" where
  "usageError msg s = (Some (RuntimeError msg), s\<lparr>errorMsg := msg\<rparr>)"

definition abort :: "EventLoop \<Rightarrow> EventLoop" where
  "abort s = (if mComplete s \<noteq> 0 then s else s\<lparr>mComplete := ASYNC_COMPLETE_ABORTED\<rparr>)"

definition setWakeupTs :: "Ts \<Rightarrow> EventLoop \<Rightarrow> EventLoop" where
  "setWakeupTs ts s = s\<lparr>mNextEventTs := ts\<rparr>"

text \<open>\<open>schedHandler\<close> returns the iterator to the new entry.\<close>

definition schedHandler :: "SchedItem \<Rightarrow> Ts \<Rightarrow> EventLoop \<Rightarrow> nat \<times> EventLoop" where
  "schedHandler handler ts s =
     (let ret = nextIter s;
          s1 = s\<lparr>mSchedQueue := emplace ts ret handler (mSchedQueue s), nextIter := ret + 1\<rparr>;
          s2 = (if ts < mNextEventTs s1 then setWakeupTs ts s1 else s1)
      in (ret, s2))"

text \<open>
  \<open>addDoneToMap\<close> returns a reference to the entry of the map, which is the entry with the
  item's tag. The item is moved into the pair that \<open>insert\<close> receives: the move constructor
  copies every member but \<open>schedItem\<close>, and leaves the argument's tag moved-from, which is
  the empty string in the usual libraries; the message for a duplicate is built after that.
\<close>

definition addDoneToMap :: "DoneItem \<Rightarrow> EventLoop \<Rightarrow> exn option \<times> EventLoop" where
  "addDoneToMap item0 s =
     (let s1 = (if tag item0 = ''_default'' then s\<lparr>mHasDefaultDone := True\<rparr> else s);
          item = (if deadline item0 < 0 then item0\<lparr>deadline := defaultDoneTimeout s1\<rparr>
                  else item0);
          result = map_insert (tag item) (item\<lparr>schedItem := None\<rparr>) (mDones s1);
          s2 = s1\<lparr>mDones := fst result\<rparr>
      in if \<not> snd result
         then usageError (''addDone: Duplicate done() tag '' @ apos @ apos) s2
         else (None, s2))"

subsection \<open>Recording an error\<close>

definition doError :: "string \<Rightarrow> string \<Rightarrow> bool \<Rightarrow> EventLoop \<Rightarrow> exn option \<times> EventLoop" where
  "doError msg tg noThrow s =
     (if mComplete s = ASYNC_COMPLETE_ERROR then (None, s)
      else
        let s1 = s\<lparr>mComplete := ASYNC_COMPLETE_ERROR\<rparr>
        in if tg \<noteq> [] then
             (case map_of (mDones s1) tg of
                None \<Rightarrow> usageError (''error() called with unknown tag: '' @ tg) s1
              | Some it \<Rightarrow>
                  let s2 = s1\<lparr>mErrorTag := tg\<rparr>;
                      s3 = s2\<lparr>errorMsg := ''done('' @ apos @ kColorTag s2 @ tg @
                                    kColorNormal s2 @ apos @ ''): '' @ msg\<rparr>;
                      s4 = s3\<lparr>mDones := map_modify tg
                                    (\<lambda>d. d\<lparr>complete := ASYNC_COMPLETE_ERROR\<rparr>) (mDones s3)\<rparr>
                  in if \<not> noThrow then (Some (RuntimeError (errorMsg s4)), s4)
                     else (None, s4))
           else
             let s2 = s1\<lparr>errorMsg := msg\<rparr>;
                 s3 = s2\<lparr>mErrorTag := tg\<rparr>
             in if \<not> noThrow then (Some (RuntimeError msg), s3) else (None, s3))"

text \<open>\<open>error(msg)\<close> and \<open>error(tag, msg)\<close>.\<close>

definition error1 :: "string \<Rightarrow> EventLoop \<Rightarrow> exn option \<times> EventLoop" where
  "error1 msg s = doError msg ''_default'' False s"

definition error2 :: "string \<Rightarrow> string \<Rightarrow> EventLoop \<Rightarrow> exn option \<times> EventLoop" where
  "error2 tg msg s =
     (if tg = []
      then usageError ''error() for a tagged done() item called, but the tag is empty'' s
      else doError msg tg False s)"

subsection \<open>Timeouts of done() items\<close>

text \<open>
  The closure that \<open>addDoneToLoop\<close> schedules. Between the lookup and the check of
  \<open>complete\<close> the source only writes to the log.
\<close>

definition doneTimeout :: "string \<Rightarrow> EventLoop \<Rightarrow> exn option \<times> EventLoop" where
  "doneTimeout tg s =
     (case map_of (mDones s) tg of
        None \<Rightarrow>
          doError (''Internal error: done() timeout handler could not find done item'' @ tg)
            tg False s
      | Some it \<Rightarrow>
          if complete it \<noteq> 0 then (None, s)
          else doError ''Timeout'' tg True s)"

text \<open>\<open>addDoneToLoop\<close> takes a reference to an entry of the map, given here by its key.\<close>

definition addDoneToLoop :: "string \<Rightarrow> EventLoop \<Rightarrow> EventLoop" where
  "addDoneToLoop k s =
     (case map_of (mDones s) k of
        None \<Rightarrow> s
      | Some item \<Rightarrow>
          let r = schedHandler (DoneTimeout (tag item)) (deadline item) s
          in (snd r)\<lparr>mDones := map_modify k (\<lambda>d. d\<lparr>schedItem := Some (fst r)\<rparr>)
                                  (mDones (snd r))\<rparr>)"

definition addDone :: "DoneItem \<Rightarrow> EventLoop \<Rightarrow> exn option \<times> EventLoop" where
  "addDone item s =
     (case addDoneToMap item s of
        (Some e, s1) \<Rightarrow> (Some e, s1)
      | (None, s1) \<Rightarrow> (None, addDoneToLoop (tag item) s1))"

definition addAllDonesToLoop :: "EventLoop \<Rightarrow> EventLoop" where
  "addAllDonesToLoop s =
     (let now = getTimeMs s
      in fold (\<lambda>k s1. addDoneToLoop k
                 (s1\<lparr>mDones := map_modify k (\<lambda>d. d\<lparr>deadline := deadline d + now\<rparr>)
                                  (mDones s1)\<rparr>))
           (map fst (mDones s)) s)"

subsection \<open>Constructors\<close>

text \<open>\<open>EventLoop(int timeout)\<close> and \<open>EventLoop(std::vector<DoneItem>&&, int timeout)\<close>.\<close>

definition EventLoop1 :: "Ts \<Rightarrow> (nat \<Rightarrow> nat) \<Rightarrow> int \<Rightarrow> exn option \<times> EventLoop" where
  "EventLoop1 t r timeout = addDoneToMap (DoneItem1 ''_default'') (members_init t r timeout)"

fun addDonesToMap :: "DoneItem list \<Rightarrow> EventLoop \<Rightarrow> exn option \<times> EventLoop" where
  "addDonesToMap [] s = (None, s)"
| "addDonesToMap (item # items) s =
     (case addDoneToMap item s of
        (Some e, s1) \<Rightarrow> (Some e, s1)
      | (None, s1) \<Rightarrow> addDonesToMap items s1)"

definition EventLoop2 ::
  "DoneItem list \<Rightarrow> Ts \<Rightarrow> (nat \<Rightarrow> nat) \<Rightarrow> int \<Rightarrow> exn option \<times> EventLoop" where
  "EventLoop2 doneItems t r timeout = addDonesToMap doneItems (members_init t r timeout)"

subsection \<open>schedCall\<close>

text \<open>
  The jitter of both branches: \<open>int j = (after*aJitterPct)/100; ts += (rand() % (2*j)) - j\<close>.
  The product is an \<open>int\<close>; \<open>%\<close> by zero is undefined.
\<close>

definition jitter :: "int \<Rightarrow> int \<Rightarrow> EventLoop \<Rightarrow> (exn + int) \<times> EventLoop" where
  "jitter after aJitterPct s =
     (if \<not> fits_int (after * aJitterPct) then (Inl (Undefined SignedOverflow), s)
      else
        let j = c_div (after * aJitterPct) 100
        in if 2 * j = 0 then (Inl (Undefined ModuloByZero), s)
           else let r = rand s in (Inr (c_mod (fst r) (2 * j) - j), snd r))"

definition schedCall :: "SchedItem \<Rightarrow> int \<Rightarrow> int \<Rightarrow> EventLoop \<Rightarrow> exn option \<times> EventLoop" where
  "schedCall func after0 aJitterPct0 s =
     (let aJitterPct = (if aJitterPct0 < 0 then jitterPct s else aJitterPct0)
      in if after0 < 0 then
           (if \<not> fits_int (- after0) then (Some (Undefined SignedOverflow), s)
            else
              let after = - after0;
                  s1 = (if mLastOrderTs s = 0 then s\<lparr>mLastOrderTs := getTimeMs s\<rparr> else s);
                  ts = mLastOrderTs s1 + after
              in if aJitterPct \<noteq> 0 then
                   (case jitter after aJitterPct s1 of
                      (Inl e, s2) \<Rightarrow> (Some e, s2)
                    | (Inr d, s2) \<Rightarrow>
                        (None, snd (schedHandler func (ts + d) (s2\<lparr>mLastOrderTs := ts + d\<rparr>))))
                 else (None, snd (schedHandler func ts (s1\<lparr>mLastOrderTs := ts\<rparr>))))
         else
           (let ts = getTimeMs s + after0
            in if aJitterPct \<noteq> 0 then
                 (case jitter after0 aJitterPct s of
                    (Inl e, s2) \<Rightarrow> (Some e, s2)
                  | (Inr d, s2) \<Rightarrow> (None, snd (schedHandler func (ts + d) s2)))
               else (None, snd (schedHandler func ts s))))"

subsection \<open>done\<close>

text \<open>\<open>done(tag)\<close>; \<open>done\<close> is a keyword here, so the two overloads are named by their arity.\<close>

definition done1 :: "string \<Rightarrow> EventLoop \<Rightarrow> exn option \<times> EventLoop" where
  "done1 tg s =
     (case map_of (mDones s) tg of
        None \<Rightarrow> usageError (''Unknown done() tag '' @ apos @ tg @ apos) s
      | Some it \<Rightarrow>
          if complete it \<noteq> 0
          then doError ''done() already resloved, can't resolve again'' tg True s
          else
            (case erase (schedItem it) (mSchedQueue s) of
               Inl e \<Rightarrow> (Some e, s)
             | Inr q \<Rightarrow>
                 let s1 = s\<lparr>mSchedQueue := q\<rparr>;
                     ord = order it;
                     s2 = (if ord \<noteq> 0
                           then s1\<lparr>mLastOrderedDoneNo := mLastOrderedDoneNo s1 + 1\<rparr> else s1)
                 in if ord \<noteq> 0 \<and> ord \<noteq> mLastOrderedDoneNo s2
                    then doError (''Did not resolve in expected order. Expected: '' @
                                    to_string ord @ '', actual: '' @
                                    to_string (mLastOrderedDoneNo s2)) tg True s2
                    else (None, s2\<lparr>mDones := map_modify tg
                                     (\<lambda>d. d\<lparr>complete := ASYNC_COMPLETE_SUCCESS\<rparr>) (mDones s2)\<rparr>)))"

definition done0 :: "EventLoop \<Rightarrow> exn option \<times> EventLoop" where
  "done0 s = done1 ''_default'' s"

text \<open>The done() item with key \<open>k\<close> is registered and no longer pending.\<close>

definition resolved :: "EventLoop \<Rightarrow> string \<Rightarrow> bool" where
  "resolved s k = (case map_of (mDones s) k of None \<Rightarrow> False | Some d \<Rightarrow> complete d \<noteq> 0)"

subsection \<open>Running scheduled calls\<close>

text \<open>
  A handler catches the exceptions that the loop throws, which are all of class
  \<open>std::runtime_error\<close>. Undefined behaviour is not an exception and is never caught.
\<close>

fun execCall :: "call \<Rightarrow> EventLoop \<Rightarrow> exn option \<times> EventLoop"
  and execCalls :: "call list \<Rightarrow> EventLoop \<Rightarrow> exn option \<times> EventLoop" where
  "execCall (CallDone tg) s = done1 tg (s\<lparr>doneCalls := doneCalls s @ [tg]\<rparr>)"
| "execCall (CallError msg) s = error1 msg s"
| "execCall (CallErrorTag tg msg) s = error2 tg msg s"
| "execCall CallAbort s = (None, abort s)"
| "execCall (CallSched cs after aJitterPct) s = schedCall (UserCall cs) after aJitterPct s"
| "execCall (Elapse n) s = (None, s\<lparr>clock := clock s + int n\<rparr>)"
| "execCall (SetErrorMsg msg) s = (None, s\<lparr>errorMsg := msg\<rparr>)"
| "execCall (SetJitterPct pct) s = (None, s\<lparr>jitterPct := pct\<rparr>)"
| "execCall (CallTry body handler) s =
     (case execCalls body s of
        (Some (RuntimeError m), s1) \<Rightarrow> execCalls handler s1
      | (r, s1) \<Rightarrow> (r, s1))"
| "execCalls [] s = (None, s)"
| "execCalls (c # cs) s =
     (case execCall c s of
        (Some e, s1) \<Rightarrow> (Some e, s1)
      | (None, s1) \<Rightarrow> execCalls cs s1)"

text \<open>\<open>(*call)()\<close>.\<close>

fun execItem :: "SchedItem \<Rightarrow> EventLoop \<Rightarrow> exn option \<times> EventLoop" where
  "execItem (UserCall cs) s = execCalls cs s"
| "execItem (DoneTimeout tg) s = doneTimeout tg s"

subsection \<open>run\<close>

text \<open>
  What is left to run: a user callback counts with every callback nested in it. The loop
  below terminates because each iteration that runs an entry makes this smaller.
\<close>

fun item_weight :: "SchedItem \<Rightarrow> nat" where
  "item_weight (UserCall cs) = Suc (size_list size cs)"
| "item_weight (DoneTimeout tg) = 1"

definition queue_weight :: "SchedQueue \<Rightarrow> nat" where
  "queue_weight q = sum_list (map (\<lambda>e. item_weight (snd (snd e))) q)"

text \<open>
  The \<open>while\<close> loop of \<open>run\<close>. An exception of a scheduled call leaves \<open>run\<close> at once.
\<close>

function run_loop :: "EventLoop \<Rightarrow> exn option \<times> EventLoop" where
  "run_loop s =
     (if mSchedQueue s = [] \<or> mComplete s \<noteq> 0 then (None, s)
      else
        let sched = hd (mSchedQueue s);
            timeToSleep = fst sched - getTimeMs s;
            s1 = (if timeToSleep > 0 then sleep timeToSleep s else s)
        in if fst sched - getTimeMs s1 > 2 then run_loop s1
           else
             let call = snd (snd sched);
                 s2 = s1\<lparr>mSchedQueue := tl (mSchedQueue s1)\<rparr>
             in case execItem call s2 of
                  (Some e, s3) \<Rightarrow> (Some e, s3)
                | (None, s3) \<Rightarrow> if errorMsg s3 \<noteq> [] then (None, s3) else run_loop s3)"
  by pat_completeness auto

definition run :: "bool \<Rightarrow> EventLoop \<Rightarrow> exn option \<times> EventLoop" where
  "run isatty s0 =
     (let s = initColors isatty s0
      in if mSchedQueue s = []
         then (Some (RuntimeError
                 ''Nothing to run: not even a single function call has been scheduled''), s)
         else
           (case run_loop (addAllDonesToLoop s) of
              (Some e, s1) \<Rightarrow> (Some e, s1)
            | (None, s1) \<Rightarrow>
                (None, if mComplete s1 = 0 then s1\<lparr>mComplete := ASYNC_COMPLETE_SUCCESS\<rparr>
                       else s1)))"

subsection \<open>Iterations of the loop\<close>

text \<open>
  The part of the loop's body that runs an entry: the sleep until the entry is due, its
  removal from the queue and its call.
\<close>

definition run_iteration :: "EventLoop \<Rightarrow> exn option \<times> EventLoop" where
  "run_iteration s =
     (let sched = hd (mSchedQueue s);
          timeToSleep = fst sched - getTimeMs s;
          s1 = (if timeToSleep > 0 then sleep timeToSleep s else s)
      in execItem (snd (snd sched)) (s1\<lparr>mSchedQueue := tl (mSchedQueue s1)\<rparr>))"

text \<open>The state in which that entry is called: the loop has slept and removed the entry.\<close>

definition due_entry :: "EventLoop \<Rightarrow> EventLoop" where
  "due_entry s =
     (let sched = hd (mSchedQueue s);
          timeToSleep = fst sched - getTimeMs s;
          s1 = (if timeToSleep > 0 then sleep timeToSleep s else s)
      in s1\<lparr>mSchedQueue := tl (mSchedQueue s1)\<rparr>)"

text \<open>
  \<open>makes_call cs s c sp\<close>: the calls \<open>cs\<close>, started in the state \<open>s\<close>, come to make the
  call \<open>c\<close>, in the state \<open>sp\<close>. The call is one of \<open>cs\<close>, or one of a try block or of a
  handler among them, at any depth.
\<close>

inductive makes_call :: "call list \<Rightarrow> EventLoop \<Rightarrow> call \<Rightarrow> EventLoop \<Rightarrow> bool" where
  makes_first: "makes_call (c # cs) s c s"
| makes_later:
    "execCall c' s = (None, s1) \<Longrightarrow> makes_call cs s1 c sp \<Longrightarrow> makes_call (c' # cs) s c sp"
| makes_tried:
    "makes_call body s c sp \<Longrightarrow> makes_call (CallTry body handler # cs) s c sp"
| makes_caught:
    "execCalls body s = (Some (RuntimeError m), s1) \<Longrightarrow> makes_call handler s1 c sp \<Longrightarrow>
     makes_call (CallTry body handler # cs) s c sp"

text \<open>
  \<open>in_callback s c sp\<close>: the loop tests its condition in state \<open>s\<close> and goes on; the entry
  that is due is a user callback, which comes to make the call \<open>c\<close>, in the state \<open>sp\<close>.
\<close>

definition in_callback :: "EventLoop \<Rightarrow> call \<Rightarrow> EventLoop \<Rightarrow> bool" where
  "in_callback s c sp \<longleftrightarrow>
     mSchedQueue s \<noteq> [] \<and> mComplete s = 0 \<and>
     (case snd (snd (hd (mSchedQueue s))) of
        UserCall cs \<Rightarrow> makes_call cs (due_entry s) c sp
      | DoneTimeout tg \<Rightarrow> False)"

text \<open>
  \<open>iterates s s'\<close>: the loop entered in state \<open>s\<close> comes to test its condition in state
  \<open>s'\<close>, after any number of entries that returned without an exception and without an
  error message.
\<close>

inductive iterates :: "EventLoop \<Rightarrow> EventLoop \<Rightarrow> bool" where
  iterates_start: "iterates s s"
| iterates_next:
    "iterates s s1 \<Longrightarrow> mSchedQueue s1 \<noteq> [] \<Longrightarrow> mComplete s1 = 0 \<Longrightarrow>
     run_iteration s1 = (None, s2) \<Longrightarrow> errorMsg s2 = [] \<Longrightarrow> iterates s s2"

subsection \<open>Loops to evaluate\<close>

text \<open>
  \<open>EventLoop loop;\<close> at wall-clock time 1000, with a \<open>rand()\<close> that returns 0: the loop
  has the done() item \<open>_default\<close> with the default timeout and nothing scheduled.
\<close>

definition no_rand :: "nat \<Rightarrow> nat" where
  "no_rand n = 0"

definition fresh_loop :: EventLoop where
  "fresh_loop = snd (EventLoop1 1000 no_rand TESTLOOP_DEFAULT_DONE_TIMEOUT)"


text \<open>
  A callback that is due 3000 ms after the start, later than the timeout of \<open>_default\<close>.
\<close>

definition timeout_example :: EventLoop where
  "timeout_example = snd (schedCall (UserCall [Elapse 0]) 3000 0 fresh_loop)"

text \<open>
  \<open>addDone\<close> of an item \<open>x\<close> and \<open>done("x")\<close> before \<open>run\<close>, and a callback that resolves
  \<open>_default\<close> after 100 ms: \<open>run\<close> schedules a timeout for \<open>x\<close>, which is resolved already.
\<close>

definition late_timeout_example :: EventLoop where
  "late_timeout_example =
     snd (schedCall (UserCall [CallDone ''_default'']) 100 0
       (snd (done1 ''x'' (snd (addDone ((DoneItem1 ''x'')\<lparr>deadline := 500\<rparr>) fresh_loop)))))"

text \<open>
  Two done() items \<open>a\<close> and \<open>b\<close>, and a callback after 100 ms that resolves \<open>b\<close>, then \<open>a\<close>
  twice, then \<open>b\<close> again.
\<close>

definition resolve_twice_example :: EventLoop where
  "resolve_twice_example =
     snd (schedCall
            (UserCall [CallDone ''b'', CallDone ''a'', CallDone ''a'', CallDone ''b'']) 100 0
            (snd (EventLoop2 [DoneItem1 ''a'', DoneItem1 ''b''] 1000 no_rand
                    TESTLOOP_DEFAULT_DONE_TIMEOUT)))"

text \<open>
  The test of example.cpp: \<open>event 1\<close> with order 1, \<open>event 2\<close> with timeout 4000 and order 2,
  \<open>jitterPct\<close> set to 40, and a callback with the default delay that resolves \<open>event 1\<close> and
  schedules a callback that resolves \<open>event 2\<close>.
\<close>

definition example_test :: EventLoop where
  "example_test =
     snd (schedCall
            (UserCall [CallDone ''event 1'', CallSched [CallDone ''event 2''] 100 (- 1)])
            100 (- 1)
            ((snd (EventLoop2 [(DoneItem1 ''event 1'')\<lparr>order := 1\<rparr>,
                               (DoneItem1 ''event 2'')\<lparr>deadline := 4000, order := 2\<rparr>]
                     1000 no_rand TESTLOOP_DEFAULT_DONE_TIMEOUT))\<lparr>jitterPct := 40\<rparr>))"

text \<open>
  Three done() items \<open>a\<close>, \<open>b\<close>, \<open>c\<close> with the orders 1, 2, 3, and a callback after 100 ms
  that resolves \<open>b\<close> and then \<open>c\<close>.
\<close>

definition out_of_order_example :: EventLoop where
  "out_of_order_example =
     snd (schedCall (UserCall [CallDone ''b'', CallDone ''c'']) 100 0
            (snd (EventLoop2 [(DoneItem1 ''a'')\<lparr>order := 1\<rparr>, (DoneItem1 ''b'')\<lparr>order := 2\<rparr>,
                              (DoneItem1 ''c'')\<lparr>order := 3\<rparr>]
                    1000 no_rand TESTLOOP_DEFAULT_DONE_TIMEOUT)))"

text \<open>
  The same three done() items, and a callback after 100 ms that resolves \<open>b\<close> and then
  \<open>c\<close> twice.
\<close>

definition out_of_order_again_example :: EventLoop where
  "out_of_order_again_example =
     snd (schedCall (UserCall [CallDone ''b'', CallDone ''c'', CallDone ''c'']) 100 0
            (snd (EventLoop2 [(DoneItem1 ''a'')\<lparr>order := 1\<rparr>, (DoneItem1 ''b'')\<lparr>order := 2\<rparr>,
                              (DoneItem1 ''c'')\<lparr>order := 3\<rparr>]
                    1000 no_rand TESTLOOP_DEFAULT_DONE_TIMEOUT)))"

text \<open>
  A done() item \<open>a\<close> with the order 1, and a callback after 100 ms that calls \<open>done\<close> with
  a tag that is not registered, in a try block with an empty handler.
\<close>

definition caught_example :: EventLoop where
  "caught_example =
     snd (schedCall (UserCall [CallTry [CallDone ''zz''] []]) 100 0
            (snd (EventLoop2 [(DoneItem1 ''a'')\<lparr>order := 1\<rparr>]
                    1000 no_rand TESTLOOP_DEFAULT_DONE_TIMEOUT)))"

subsection \<open>The order of resolution\<close>

text \<open>The done() item with key \<open>k\<close> is registered with an order other than 0.\<close>

definition ordered :: "EventLoop \<Rightarrow> string \<Rightarrow> bool" where
  "ordered s k = (case map_of (mDones s) k of None \<Rightarrow> False | Some d \<Rightarrow> order d \<noteq> 0)"

text \<open>The tags of such items that callbacks have passed to \<open>done\<close>, oldest first.\<close>

definition ordered_resolves :: "EventLoop \<Rightarrow> string list" where
  "ordered_resolves s = filter (ordered s) (doneCalls s)"

text \<open>
  A loop as it is between its construction and \<open>run\<close>: nothing is complete, no item is
  resolved, every item is stored under its tag, and the iterators of the queue are those
  that \<open>schedHandler\<close> gave out.
\<close>

definition unused :: "EventLoop \<Rightarrow> bool" where
  "unused s \<longleftrightarrow>
     mComplete s = 0 \<and> errorMsg s = [] \<and> mLastOrderedDoneNo s = 0 \<and> doneCalls s = [] \<and>
     list_all (\<lambda>e. complete (snd e) = 0 \<and> tag (snd e) = fst e) (mDones s) \<and>
     distinct (map (\<lambda>e. fst (snd e)) (mSchedQueue s)) \<and>
     list_all (\<lambda>e. fst (snd e) < nextIter s) (mSchedQueue s)"

text \<open>
  What holds of the loop while \<open>run\<close> has recorded no error and no abort: the iterators of
  the queue differ, a done() item is pending or successful, a pending one has its timeout
  in the queue, and the counter \<open>mLastOrderedDoneNo\<close> is the number of ordered items
  resolved, which have the orders 1, 2, ... in the order of their resolution.
\<close>

definition handles_ok :: "EventLoop \<Rightarrow> bool" where
  "handles_ok s \<longleftrightarrow>
     distinct (map (\<lambda>e. fst (snd e)) (mSchedQueue s)) \<and>
     (\<forall>e \<in> set (mSchedQueue s). fst (snd e) < nextIter s)"

definition dones_ok :: "EventLoop \<Rightarrow> bool" where
  "dones_ok s \<longleftrightarrow>
     (\<forall>k d. map_of (mDones s) k = Some d \<longrightarrow>
        (complete d = 0 \<or> complete d = ASYNC_COMPLETE_SUCCESS) \<and>
        (complete d = 0 \<longrightarrow>
           (\<exists>h ts. schedItem d = Some h \<and> (ts, h, DoneTimeout k) \<in> set (mSchedQueue s))))"

definition log_ok :: "EventLoop \<Rightarrow> bool" where
  "log_ok s \<longleftrightarrow>
     int (length (ordered_resolves s)) = mLastOrderedDoneNo s \<and>
     (\<forall>i < length (ordered_resolves s).
        \<exists>d. map_of (mDones s) (ordered_resolves s ! i) = Some d \<and>
            order d = int i + 1 \<and> complete d = ASYNC_COMPLETE_SUCCESS) \<and>
     (\<forall>k d. map_of (mDones s) k = Some d \<and> order d \<noteq> 0 \<and>
            complete d = ASYNC_COMPLETE_SUCCESS \<longrightarrow> k \<in> set (ordered_resolves s))"

definition good :: "EventLoop \<Rightarrow> bool" where
  "good s \<longleftrightarrow> handles_ok s \<and> dones_ok s \<and> log_ok s"

definition inv :: "EventLoop \<Rightarrow> bool" where
  "inv s \<longleftrightarrow> mComplete s \<noteq> ASYNC_COMPLETE_SUCCESS \<and> (mComplete s = 0 \<longrightarrow> good s)"

text \<open>The order under which the done() item with key \<open>k\<close> is registered.\<close>

definition order_of :: "EventLoop \<Rightarrow> string \<Rightarrow> int option" where
  "order_of s k = map_option order (map_of (mDones s) k)"

text \<open>
  How the overall state changes: it stays, or it becomes \<open>ASYNC_COMPLETE_ERROR\<close>, or it
  goes from 0 to \<open>ASYNC_COMPLETE_ABORTED\<close>.
\<close>

definition advances :: "int \<Rightarrow> int \<Rightarrow> bool" where
  "advances c c' \<longleftrightarrow>
     c' = c \<or> c' = ASYNC_COMPLETE_ERROR \<or> (c = 0 \<and> c' = ASYNC_COMPLETE_ABORTED)"

text \<open>
  What \<open>addAllDonesToLoop\<close> starts from, and what it reaches for the item with key \<open>k\<close>: the
  timeout of the item is in the queue, under the iterator that the item holds.
\<close>

definition registered_ok :: "EventLoop \<Rightarrow> bool" where
  "registered_ok s \<longleftrightarrow>
     handles_ok s \<and> (\<forall>k d. map_of (mDones s) k = Some d \<longrightarrow> complete d = 0 \<and> tag d = k) \<and>
     errorMsg s = [] \<and> mComplete s = 0 \<and> mLastOrderedDoneNo s = 0 \<and> doneCalls s = []"

definition armed :: "EventLoop \<Rightarrow> string \<Rightarrow> bool" where
  "armed s k \<longleftrightarrow>
     (\<forall>d. map_of (mDones s) k = Some d \<longrightarrow>
        (\<exists>h ts. schedItem d = Some h \<and> (ts, h, DoneTimeout k) \<in> set (mSchedQueue s)))"

subsection \<open>Exceptions of scheduled calls\<close>

text \<open>
  The first letters of the messages that a scheduled call can throw: those of the usage
  errors and of the recorded errors.
\<close>

fun thrown_ok :: "exn option \<Rightarrow> bool" where
  "thrown_ok (Some (RuntimeError m)) = (m \<noteq> [] \<and> hd m \<in> set ''UdeI'')"
| "thrown_ok (Some (Undefined u)) = True"
| "thrown_ok None = True"

section \<open>Termination of the loop\<close>

lemma queue_weight_emplace:
  "queue_weight (emplace ts h c q) = item_weight c + queue_weight q"
  by (induction q) (auto simp: queue_weight_def)

lemma queue_weight_filter: "queue_weight (filter P q) \<le> queue_weight q"
  by (induction q) (auto simp: queue_weight_def)

lemma queue_weight_erase: "erase it q = Inr q' \<Longrightarrow> queue_weight q' \<le> queue_weight q"
  by (auto simp: erase_def queue_weight_filter split: option.splits if_splits)

lemma mSchedQueue_schedHandler:
  "mSchedQueue (snd (schedHandler c ts s)) = emplace ts (nextIter s) c (mSchedQueue s)"
  by (simp add: schedHandler_def Let_def setWakeupTs_def)

lemma mSchedQueue_usageError: "mSchedQueue (snd (usageError msg s)) = mSchedQueue s"
  by (simp add: usageError_def)

lemma mSchedQueue_doError: "mSchedQueue (snd (doError msg tg nt s)) = mSchedQueue s"
  by (simp add: doError_def Let_def usageError_def split: option.splits)

lemma mSchedQueue_jitter: "mSchedQueue (snd (jitter a p s)) = mSchedQueue s"
  by (simp add: jitter_def Let_def rand_def)



lemma jitter_fields:
  "jitter a p s = (r, s2) \<Longrightarrow> mSchedQueue s2 = mSchedQueue s \<and> nextIter s2 = nextIter s"
  by (auto simp: jitter_def Let_def rand_def split: if_splits)

lemma mSchedQueue_schedCall:
  "mSchedQueue (snd (schedCall c a p s)) = mSchedQueue s \<or>
   (\<exists>ts. mSchedQueue (snd (schedCall c a p s)) = emplace ts (nextIter s) c (mSchedQueue s))"
proof -
  define p' where "p' = (if p < 0 then jitterPct s else p)"
  define s1 where "s1 = (if mLastOrderTs s = 0 then s\<lparr>mLastOrderTs := getTimeMs s\<rparr> else s)"
  have s1: "mSchedQueue s1 = mSchedQueue s" "nextIter s1 = nextIter s"
    by (simp_all add: s1_def)
  obtain r s2 where j1: "jitter (- a) p' s1 = (r, s2)" by (cases "jitter (- a) p' s1")
  obtain r' s2' where j2: "jitter a p' s = (r', s2')" by (cases "jitter a p' s")
  note f1 = jitter_fields [OF j1] and f2 = jitter_fields [OF j2]
  show ?thesis
    unfolding schedCall_def Let_def p'_def [symmetric] s1_def [symmetric]
    using f1 f2 s1
    by (cases r; cases r') (auto simp: j1 j2 mSchedQueue_schedHandler)
qed

lemma queue_weight_schedCall:
  "queue_weight (mSchedQueue (snd (schedCall c a p s))) \<le> queue_weight (mSchedQueue s) + item_weight c"
  using mSchedQueue_schedCall [of c a p s] by (auto simp: queue_weight_emplace)


lemma queue_weight_done1:
  "queue_weight (mSchedQueue (snd (done1 tg s))) \<le> queue_weight (mSchedQueue s)"
proof (cases "map_of (mDones s) tg")
  case None
  then show ?thesis by (simp add: done1_def mSchedQueue_usageError)
next
  case (Some it)
  show ?thesis
  proof (cases "complete it \<noteq> 0")
    case True
    then show ?thesis using Some by (simp add: done1_def mSchedQueue_doError)
  next
    case False
    show ?thesis
    proof (cases "erase (schedItem it) (mSchedQueue s)")
      case (Inl e)
      then show ?thesis using Some False by (simp add: done1_def)
    next
      case (Inr q)
      then show ?thesis using Some False queue_weight_erase [OF Inr]
        by (simp add: done1_def Let_def mSchedQueue_doError)
    qed
  qed
qed

lemma queue_weight_execCall:
  "queue_weight (mSchedQueue (snd (execCall c s))) \<le> queue_weight (mSchedQueue s) + size c"
  and queue_weight_execCalls:
  "queue_weight (mSchedQueue (snd (execCalls cs s))) \<le>
     queue_weight (mSchedQueue s) + size_list size cs"
proof (induction c s and cs s rule: execCall_execCalls.induct)
  case (1 tg s)
  then show ?case using queue_weight_done1 [of tg "s\<lparr>doneCalls := doneCalls s @ [tg]\<rparr>"] by simp
next
  case (2 msg s)
  then show ?case by (simp add: error1_def mSchedQueue_doError)
next
  case (3 tg msg s)
  then show ?case by (simp add: error2_def mSchedQueue_doError mSchedQueue_usageError)
next
  case (4 s)
  then show ?case by (simp add: abort_def)
next
  case (5 cs after aJitterPct s)
  then show ?case using queue_weight_schedCall [of "UserCall cs" after aJitterPct s] by simp
next
  case (6 n s)
  then show ?case by simp
next
  case (7 msg s)
  then show ?case by simp
next
  case (8 pct s)
  then show ?case by simp
next
  case (9 body handler s)
  obtain e s1 where ex: "execCalls body s = (e, s1)" by (cases "execCalls body s")
  have w1: "queue_weight (mSchedQueue s1) \<le> queue_weight (mSchedQueue s) + size_list size body"
    using "9.IH"(1) ex by simp
  show ?case
  proof (cases e)
    case None
    then show ?thesis using ex w1 by simp
  next
    case (Some x)
    show ?thesis
    proof (cases x)
      case (RuntimeError m)
      have "queue_weight (mSchedQueue (snd (execCalls handler s1))) \<le>
          queue_weight (mSchedQueue s1) + size_list size handler"
        using "9.IH"(2) [of e s1 x m] ex Some RuntimeError by simp
      then show ?thesis using ex Some RuntimeError w1 by simp
    next
      case (Undefined u)
      then show ?thesis using ex Some w1 by simp
    qed
  qed
next
  case (10 s)
  then show ?case by simp
next
  case (11 c cs s)
  obtain e s1 where ex: "execCall c s = (e, s1)" by (cases "execCall c s")
  have w1: "queue_weight (mSchedQueue s1) \<le> queue_weight (mSchedQueue s) + size c"
    using "11.IH"(1) ex by simp
  show ?case
  proof (cases e)
    case None
    then show ?thesis using ex w1 "11.IH"(2) [of e s1] by simp
  next
    case (Some x)
    then show ?thesis using ex w1 by simp
  qed
qed

lemma queue_weight_execItem:
  "Suc (queue_weight (mSchedQueue (snd (execItem c s)))) \<le> queue_weight (mSchedQueue s) + item_weight c"
proof (cases c)
  case (UserCall cs)
  then show ?thesis using queue_weight_execCalls [of cs s] by simp
next
  case (DoneTimeout tg)
  then show ?thesis by (simp add: doneTimeout_def mSchedQueue_doError split: option.splits)
qed

termination run_loop
proof (relation "measure (\<lambda>s. queue_weight (mSchedQueue s))")
  show "wf (measure (\<lambda>s. queue_weight (mSchedQueue s)))" by simp
next
  fix s sched timeToSleep s1
  assume "\<not> (mSchedQueue s = [] \<or> mComplete s \<noteq> 0)"
    and "sched = hd (mSchedQueue s)" and "timeToSleep = fst sched - getTimeMs s"
    and "s1 = (if 0 < timeToSleep then sleep timeToSleep s else s)"
    and "2 < fst sched - getTimeMs s1"
  then have False by (auto simp: sleep_def getTimeMs_def split: if_splits)
  then show "(s1, s) \<in> measure (\<lambda>s. queue_weight (mSchedQueue s))" ..
next
  fix s sched timeToSleep s1 call s2 x s3 
  assume ne: "\<not> (mSchedQueue s = [] \<or> mComplete s \<noteq> 0)"
    and sched: "sched = hd (mSchedQueue s)"
    and "timeToSleep = fst sched - getTimeMs s"
    and s1: "s1 = (if 0 < timeToSleep then sleep timeToSleep s else s)"
    and "\<not> 2 < fst sched - getTimeMs s1"
    and call: "call = snd (snd sched)"
    and s2: "s2 = s1\<lparr>mSchedQueue := tl (mSchedQueue s1)\<rparr>"
    and ex: "(x, s3) = execItem call s2"
  have q1: "mSchedQueue s1 = mSchedQueue s" using s1 by (simp add: sleep_def)
  have "queue_weight (mSchedQueue s) = item_weight call + queue_weight (mSchedQueue s2)"
    using ne sched call s2 q1 by (cases "mSchedQueue s") (auto simp: queue_weight_def)
  moreover have "Suc (queue_weight (mSchedQueue s3)) \<le> queue_weight (mSchedQueue s2) + item_weight call"
    using queue_weight_execItem [of call s2] ex [symmetric] by simp
  ultimately show "(s3, s) \<in> measure (\<lambda>s. queue_weight (mSchedQueue s))" by simp
qed

declare run_loop.simps [simp del]

section \<open>Helper facts\<close>

lemma cites_append: "cites (a @ w @ b) w"
proof (induction a)
  case Nil
  show ?case
  proof (cases "w @ b")
    case Nil
    then show ?thesis by simp
  next
    case (Cons c cs)
    have "prefix w (w @ b)" by simp
    then show ?thesis unfolding Cons by simp
  qed
next
  case (Cons x a)
  then show ?case by simp
qed

lemma c_div_100_zero:
  assumes "c_div x 100 = 0"
  shows "\<bar>x\<bar> < 100"
proof (rule ccontr)
  assume "\<not> \<bar>x\<bar> < 100"
  then have h: "100 \<le> \<bar>x\<bar>" by simp
  then have "1 \<le> \<bar>x\<bar> div 100" by simp
  moreover have "x \<noteq> 0" using h by auto
  ultimately show False using assms by (auto simp: c_div_def sgn_if split: if_splits)
qed

lemma fits_int_small: "\<bar>x\<bar> < 100 \<Longrightarrow> fits_int x"
  by (simp add: fits_int_def INT_MIN_def INT_MAX_def) linarith

lemma jitter_zero:
  assumes "\<bar>a * p\<bar> < 100" and "c_div (a * p) 100 = 0"
  shows "jitter a p t = (Inl (Undefined ModuloByZero), t)"
proof -
  have "fits_int (a * p)" using assms(1) by (rule fits_int_small)
  then show ?thesis using assms(2) by (simp add: jitter_def)
qed

lemma jitterPct_members_init: "jitterPct (members_init t r d) = 50"
  by (simp add: members_init_def)

lemma run_loop_stop: "mSchedQueue s = [] \<or> mComplete s \<noteq> 0 \<Longrightarrow> run_loop s = (None, s)"
  by (subst run_loop.simps) simp

lemma run_loop_unfold:
  assumes "mSchedQueue s \<noteq> []" and "mComplete s = 0"
  shows "run_loop s =
     (case run_iteration s of
        (Some e, s3) \<Rightarrow> (Some e, s3)
      | (None, s3) \<Rightarrow> if errorMsg s3 \<noteq> [] then (None, s3) else run_loop s3)"
proof -
  define sched where "sched = hd (mSchedQueue s)"
  define s1 where "s1 = (if fst sched - getTimeMs s > 0 then sleep (fst sched - getTimeMs s) s else s)"
  have awake: "\<not> fst sched - getTimeMs s1 > 2"
    by (simp add: s1_def sleep_def getTimeMs_def)
  have it: "run_iteration s = execItem (snd (snd sched)) (s1\<lparr>mSchedQueue := tl (mSchedQueue s1)\<rparr>)"
    by (simp add: run_iteration_def Let_def sched_def s1_def)
  show ?thesis
    apply (subst run_loop.simps)
    unfolding Let_def sched_def [symmetric] s1_def [symmetric] it
    using assms awake by simp
qed

lemma run_loop_iterates: "iterates s s' \<Longrightarrow> run_loop s = run_loop s'"
proof (induction rule: iterates.induct)
  case (iterates_start s)
  show ?case by simp
next
  case (iterates_next s s1 s2)
  have "run_loop s1 = run_loop s2"
    using iterates_next.hyps(2-5) by (simp add: run_loop_unfold)
  then show ?case using iterates_next.IH by simp
qed


lemma mSchedQueue_initColors: "mSchedQueue (initColors tty s) = mSchedQueue s"
  by (simp add: initColors_def)

lemma run_from_iteration:
  assumes "mSchedQueue s0 \<noteq> []" and "iterates (addAllDonesToLoop (initColors tty s0)) s"
  shows "run tty s0 =
     (case run_loop s of
        (Some e, s1) \<Rightarrow> (Some e, s1)
      | (None, s1) \<Rightarrow>
          (None, if mComplete s1 = 0 then s1\<lparr>mComplete := ASYNC_COMPLETE_SUCCESS\<rparr> else s1))"
  using assms(1) run_loop_iterates [OF assms(2)]
  by (simp add: run_def Let_def mSchedQueue_initColors)

lemma run_loop_last:
  assumes "mSchedQueue s \<noteq> []" and "mComplete s = 0" and "run_iteration s = (None, s3)"
    and "mComplete s3 \<noteq> 0"
  shows "run_loop s = (None, s3)"
  using assms by (simp add: run_loop_unfold run_loop_stop)

lemma run_last:
  assumes "mSchedQueue s0 \<noteq> []" and "iterates (addAllDonesToLoop (initColors tty s0)) s"
    and "mSchedQueue s \<noteq> []" and "mComplete s = 0" and "run_iteration s = (None, s3)"
    and "mComplete s3 \<noteq> 0"
  shows "run tty s0 = (None, s3)"
  using run_from_iteration [OF assms(1,2)] run_loop_last [OF assms(3-6)] assms(6) by simp

lemma doError_error: "mComplete s = ASYNC_COMPLETE_ERROR \<Longrightarrow> doError msg tg nt s = (None, s)"
  by (simp add: doError_def)

lemma mComplete_doError: "mComplete (snd (doError msg tg nt s)) = ASYNC_COMPLETE_ERROR"
  by (simp add: doError_def Let_def usageError_def split: option.splits)

lemma doError_untagged:
  "mComplete s \<noteq> ASYNC_COMPLETE_ERROR \<Longrightarrow>
   doError msg [] nt s =
     (if nt then None else Some (RuntimeError msg),
      s\<lparr>mComplete := ASYNC_COMPLETE_ERROR, errorMsg := msg, mErrorTag := []\<rparr>)"
  by (simp add: doError_def Let_def)

lemma doError_tagged:
  "mComplete s \<noteq> ASYNC_COMPLETE_ERROR \<Longrightarrow> tg \<noteq> [] \<Longrightarrow> map_of (mDones s) tg = Some it \<Longrightarrow>
   doError msg tg nt s =
     (if nt then None
      else Some (RuntimeError (''done('' @ apos @ kColorTag s @ tg @ kColorNormal s @ apos @
                                ''): '' @ msg)),
      s\<lparr>mComplete := ASYNC_COMPLETE_ERROR, mErrorTag := tg,
        errorMsg := ''done('' @ apos @ kColorTag s @ tg @ kColorNormal s @ apos @ ''): '' @ msg,
        mDones := map_modify tg (\<lambda>d. d\<lparr>complete := ASYNC_COMPLETE_ERROR\<rparr>) (mDones s)\<rparr>)"
  by (simp add: doError_def Let_def)

lemma doError_unknown:
  "mComplete s \<noteq> ASYNC_COMPLETE_ERROR \<Longrightarrow> tg \<noteq> [] \<Longrightarrow> map_of (mDones s) tg = None \<Longrightarrow>
   doError msg tg nt s =
     (Some (RuntimeError (''error() called with unknown tag: '' @ tg)),
      s\<lparr>mComplete := ASYNC_COMPLETE_ERROR,
        errorMsg := ''error() called with unknown tag: '' @ tg\<rparr>)"
  by (simp add: doError_def Let_def usageError_def)

lemma queue_weight_run_iteration:
  assumes "mSchedQueue s \<noteq> []"
  shows "queue_weight (mSchedQueue (snd (run_iteration s))) < queue_weight (mSchedQueue s)"
proof -
  define sched where "sched = hd (mSchedQueue s)"
  define s1 where "s1 = (if fst sched - getTimeMs s > 0 then sleep (fst sched - getTimeMs s) s else s)"
  define s2 where "s2 = s1\<lparr>mSchedQueue := tl (mSchedQueue s1)\<rparr>"
  have q1: "mSchedQueue s1 = mSchedQueue s" by (simp add: s1_def sleep_def)
  have it: "run_iteration s = execItem (snd (snd sched)) s2"
    by (simp add: run_iteration_def Let_def sched_def s1_def s2_def)
  have "queue_weight (mSchedQueue s) = item_weight (snd (snd sched)) + queue_weight (mSchedQueue s2)"
    using assms q1 by (cases "mSchedQueue s") (auto simp: queue_weight_def sched_def s2_def)
  then show ?thesis using queue_weight_execItem [of "snd (snd sched)" s2] it by simp
qed

lemma run_loop_induct [case_names stop iter]:
  assumes stop: "\<And>s. mSchedQueue s = [] \<or> mComplete s \<noteq> 0 \<Longrightarrow> P s"
    and iter: "\<And>s. mSchedQueue s \<noteq> [] \<Longrightarrow> mComplete s = 0 \<Longrightarrow>
                 (\<And>s3. run_iteration s = (None, s3) \<Longrightarrow> errorMsg s3 = [] \<Longrightarrow> P s3) \<Longrightarrow> P s"
  shows "P s"
proof (induction "queue_weight (mSchedQueue s)" arbitrary: s rule: less_induct)
  case less
  show ?case
  proof (cases "mSchedQueue s = [] \<or> mComplete s \<noteq> 0")
    case True
    then show ?thesis by (rule stop)
  next
    case False
    then have q: "mSchedQueue s \<noteq> []" and c: "mComplete s = 0" by simp_all
    show ?thesis
    proof (rule iter [OF q c])
      fix s3 assume r: "run_iteration s = (None, s3)"
      have "queue_weight (mSchedQueue s3) < queue_weight (mSchedQueue s)"
        using queue_weight_run_iteration [OF q] r by simp
      then show "P s3" by (rule less.hyps)
    qed
  qed
qed

lemmas thrown_ok_simps = thrown_ok.simps

lemma thrown_ok_doError:
  "tg \<noteq> [] \<or> nt \<or> (msg \<noteq> [] \<and> hd msg \<in> set ''UdeI'') \<Longrightarrow> thrown_ok (fst (doError msg tg nt s))"
  by (auto simp: doError_def Let_def usageError_def thrown_ok_simps split: option.splits)

lemma thrown_ok_done1: "thrown_ok (fst (done1 tg s))"
proof (cases "map_of (mDones s) tg")
  case None
  then show ?thesis by (simp add: done1_def usageError_def thrown_ok_simps)
next
  case (Some it)
  show ?thesis
  proof (cases "erase (schedItem it) (mSchedQueue s)")
    case (Inl e)
    then show ?thesis using Some
      by (auto simp: done1_def thrown_ok_doError erase_def thrown_ok_simps split: option.splits if_splits)
  next
    case (Inr q)
    then show ?thesis using Some
      by (simp add: done1_def Let_def thrown_ok_doError thrown_ok_simps)
  qed
qed

lemma fst_jitter: "fst (jitter a p s) = Inl e \<Longrightarrow> \<exists>u. e = Undefined u"
  by (auto simp: jitter_def Let_def split: if_splits)

lemma thrown_ok_schedCall: "thrown_ok (fst (schedCall c a p s))"
proof -
  define p' where "p' = (if p < 0 then jitterPct s else p)"
  define s1 where "s1 = (if mLastOrderTs s = 0 then s\<lparr>mLastOrderTs := getTimeMs s\<rparr> else s)"
  obtain r s2 where j1: "jitter (- a) p' s1 = (r, s2)" by (cases "jitter (- a) p' s1")
  obtain r' s2' where j2: "jitter a p' s = (r', s2')" by (cases "jitter a p' s")
  have u1: "\<And>e. r = Inl e \<Longrightarrow> \<exists>u. e = Undefined u" using fst_jitter [of "- a" p' s1] j1 by simp
  have u2: "\<And>e. r' = Inl e \<Longrightarrow> \<exists>u. e = Undefined u" using fst_jitter [of a p' s] j2 by simp
  show ?thesis
    unfolding schedCall_def Let_def p'_def [symmetric] s1_def [symmetric]
    using u1 u2
    by (cases r; cases r') (auto simp: j1 j2 thrown_ok_simps)
qed

lemma thrown_ok_execCall: "thrown_ok (fst (execCall c s))"
  and thrown_ok_execCalls: "thrown_ok (fst (execCalls cs s))"
proof (induction c s and cs s rule: execCall_execCalls.induct)
  case (1 tg s)
  show ?case by (simp add: thrown_ok_done1)
next
  case (2 msg s)
  show ?case by (simp add: error1_def thrown_ok_doError)
next
  case (3 tg msg s)
  show ?case by (simp add: error2_def thrown_ok_doError usageError_def thrown_ok_simps)
next
  case (4 s)
  show ?case by (simp add: thrown_ok_simps)
next
  case (5 cs after aJitterPct s)
  show ?case by (simp add: thrown_ok_schedCall)
next
  case (6 n s)
  show ?case by (simp add: thrown_ok_simps)
next
  case (7 msg s)
  show ?case by (simp add: thrown_ok_simps)
next
  case (8 pct s)
  show ?case by (simp add: thrown_ok_simps)
next
  case (9 body handler s)
  obtain e s1 where ex: "execCalls body s = (e, s1)" by (cases "execCalls body s")
  show ?case
  proof (cases e)
    case None
    then show ?thesis using ex by (simp add: thrown_ok_simps)
  next
    case (Some x)
    show ?thesis
    proof (cases x)
      case (RuntimeError m)
      then show ?thesis using "9.IH"(2) [of e s1 x m] ex Some by simp
    next
      case (Undefined u)
      then show ?thesis using ex Some by (simp add: thrown_ok_simps)
    qed
  qed
next
  case (10 s)
  show ?case by (simp add: thrown_ok_simps)
next
  case (11 c cs s)
  obtain e s1 where ex: "execCall c s = (e, s1)" by (cases "execCall c s")
  show ?case
  proof (cases e)
    case None
    then show ?thesis using ex "11.IH"(2) [of e s1] by simp
  next
    case (Some x)
    then show ?thesis using ex "11.IH"(1) by simp
  qed
qed

lemma thrown_ok_execItem: "thrown_ok (fst (execItem c s))"
proof (cases c)
  case (UserCall cs)
  then show ?thesis by (simp add: thrown_ok_execCalls)
next
  case (DoneTimeout tg)
  then show ?thesis
    by (simp add: doneTimeout_def thrown_ok_doError thrown_ok_simps split: option.splits)
qed

lemma thrown_ok_run_iteration: "thrown_ok (fst (run_iteration s))"
  by (simp add: run_iteration_def Let_def thrown_ok_execItem)

lemma thrown_ok_run_loop: "thrown_ok (fst (run_loop s))"
proof (induction s rule: run_loop_induct)
  case (stop s)
  then show ?case by (simp add: run_loop_stop thrown_ok_simps)
next
  case (iter s)
  obtain e s3 where r: "run_iteration s = (e, s3)" by (cases "run_iteration s")
  show ?case
  proof (cases e)
    case None
    then show ?thesis using r iter by (simp add: run_loop_unfold thrown_ok_simps)
  next
    case (Some x)
    then show ?thesis using r iter(1,2) thrown_ok_run_iteration [of s]
      by (simp add: run_loop_unfold)
  qed
qed

lemma schedCall_chained:
  assumes "0 < m" and "m \<le> INT_MAX" and "(if j < 0 then jitterPct s else j) = 0"
  shows "schedCall f (- m) j s =
     (None, snd (schedHandler f ((if mLastOrderTs s = 0 then clock s else mLastOrderTs s) + m)
        (s\<lparr>mLastOrderTs := (if mLastOrderTs s = 0 then clock s else mLastOrderTs s) + m\<rparr>)))"
proof -
  have f: "fits_int (- (- m))" using assms(1,2) by (simp add: fits_int_def INT_MIN_def INT_MAX_def)
  show ?thesis
    unfolding schedCall_def Let_def using assms(1,3) f by (simp add: getTimeMs_def)
qed

lemma mLastOrderTs_schedHandler: "mLastOrderTs (snd (schedHandler f ts s)) = mLastOrderTs s"
  by (simp add: schedHandler_def Let_def setWakeupTs_def)

lemma run_iteration_due:
  "run_iteration s = execItem (snd (snd (hd (mSchedQueue s)))) (due_entry s)"
  by (simp add: run_iteration_def due_entry_def Let_def)

lemma due_entry_fields:
  "mDones (due_entry s) = mDones s" "mComplete (due_entry s) = mComplete s"
  "errorMsg (due_entry s) = errorMsg s" "mErrorTag (due_entry s) = mErrorTag s"
  "mSchedQueue (due_entry s) = tl (mSchedQueue s)" "doneCalls (due_entry s) = doneCalls s"
  "mLastOrderedDoneNo (due_entry s) = mLastOrderedDoneNo s" "nextIter (due_entry s) = nextIter s"
  "kColorTag (due_entry s) = kColorTag s" "kColorNormal (due_entry s) = kColorNormal s"
  by (simp_all add: due_entry_def Let_def sleep_def)

lemma run_ends:
  assumes "mSchedQueue s0 \<noteq> []" and "iterates (addAllDonesToLoop (initColors tty s0)) s"
    and "mSchedQueue s \<noteq> []" and "mComplete s = 0" and "run_iteration s = (e, s3)"
    and "mComplete s3 \<noteq> 0"
  shows "run tty s0 = (e, s3)"
proof (cases e)
  case None
  then show ?thesis using run_last [OF assms(1-4) _ assms(6)] assms(5) by simp
next
  case (Some x)
  then have "run_loop s = (Some x, s3)" using assms(3-5) by (simp add: run_loop_unfold)
  then show ?thesis using run_from_iteration [OF assms(1,2)] Some by simp
qed

lemma cites_suffix: "cites (a @ w) w"
  using cites_append [of a w "[]"] by simp

lemma cites_self: "cites w w"
  using cites_append [of "[]" w "[]"] by simp

lemma map_of_map_modify:
  "map_of (map_modify k f m) k' = (if k' = k then map_option f (map_of m k') else map_of m k')"
  by (induction m) (auto simp: map_modify_def)

lemma map_fst_map_modify: "map fst (map_modify k f m) = map fst m"
  by (induction m) (auto simp: map_modify_def)

lemma schedHandler_fields:
  "mDones (snd (schedHandler c ts s)) = mDones s"
  "mComplete (snd (schedHandler c ts s)) = mComplete s"
  "errorMsg (snd (schedHandler c ts s)) = errorMsg s"
  "mErrorTag (snd (schedHandler c ts s)) = mErrorTag s"
  "doneCalls (snd (schedHandler c ts s)) = doneCalls s"
  "mLastOrderedDoneNo (snd (schedHandler c ts s)) = mLastOrderedDoneNo s"
  "nextIter (snd (schedHandler c ts s)) = Suc (nextIter s)"
  by (simp_all add: schedHandler_def Let_def setWakeupTs_def)

lemma jitter_keeps:
  "jitter a p s = (r, s2) \<Longrightarrow>
   mDones s2 = mDones s \<and> mComplete s2 = mComplete s \<and> errorMsg s2 = errorMsg s \<and>
   mErrorTag s2 = mErrorTag s \<and> doneCalls s2 = doneCalls s \<and>
   mLastOrderedDoneNo s2 = mLastOrderedDoneNo s"
  by (auto simp: jitter_def Let_def rand_def split: if_splits)

lemma schedCall_fields:
  "mDones (snd (schedCall c a p s)) = mDones s \<and>
   mComplete (snd (schedCall c a p s)) = mComplete s \<and>
   errorMsg (snd (schedCall c a p s)) = errorMsg s \<and>
   mErrorTag (snd (schedCall c a p s)) = mErrorTag s \<and>
   doneCalls (snd (schedCall c a p s)) = doneCalls s \<and>
   mLastOrderedDoneNo (snd (schedCall c a p s)) = mLastOrderedDoneNo s"
proof -
  define p' where "p' = (if p < 0 then jitterPct s else p)"
  define s1 where "s1 = (if mLastOrderTs s = 0 then s\<lparr>mLastOrderTs := getTimeMs s\<rparr> else s)"
  have s1: "mDones s1 = mDones s" "mComplete s1 = mComplete s" "errorMsg s1 = errorMsg s"
    "mErrorTag s1 = mErrorTag s" "doneCalls s1 = doneCalls s"
    "mLastOrderedDoneNo s1 = mLastOrderedDoneNo s"
    by (simp_all add: s1_def)
  obtain r s2 where j1: "jitter (- a) p' s1 = (r, s2)" by (cases "jitter (- a) p' s1")
  obtain r' s2' where j2: "jitter a p' s = (r', s2')" by (cases "jitter a p' s")
  note f1 = jitter_keeps [OF j1] and f2 = jitter_keeps [OF j2]
  show ?thesis
    unfolding schedCall_def Let_def p'_def [symmetric] s1_def [symmetric]
    using f1 f2 s1
    by (cases r; cases r') (simp_all add: j1 j2 schedHandler_fields)
qed


lemma done1_unknown:
  "map_of (mDones s) tg = None \<Longrightarrow>
   done1 tg s = usageError (''Unknown done() tag '' @ apos @ tg @ apos) s"
  by (simp add: done1_def)

lemma done1_resolved:
  "map_of (mDones s) tg = Some it \<Longrightarrow> complete it \<noteq> 0 \<Longrightarrow>
   done1 tg s = doError ''done() already resloved, can't resolve again'' tg True s"
  by (simp add: done1_def)

lemma done1_invalid:
  "map_of (mDones s) tg = Some it \<Longrightarrow> complete it = 0 \<Longrightarrow>
   erase (schedItem it) (mSchedQueue s) = Inl e \<Longrightarrow> done1 tg s = (Some e, s)"
  by (simp add: done1_def)

lemma done1_unordered:
  "map_of (mDones s) tg = Some it \<Longrightarrow> complete it = 0 \<Longrightarrow>
   erase (schedItem it) (mSchedQueue s) = Inr q \<Longrightarrow> order it = 0 \<Longrightarrow>
   done1 tg s =
     (None, s\<lparr>mSchedQueue := q,
              mDones := map_modify tg (\<lambda>d. d\<lparr>complete := ASYNC_COMPLETE_SUCCESS\<rparr>) (mDones s)\<rparr>)"
  by (simp add: done1_def Let_def)

lemma done1_in_order:
  "map_of (mDones s) tg = Some it \<Longrightarrow> complete it = 0 \<Longrightarrow>
   erase (schedItem it) (mSchedQueue s) = Inr q \<Longrightarrow> order it \<noteq> 0 \<Longrightarrow>
   order it = mLastOrderedDoneNo s + 1 \<Longrightarrow>
   done1 tg s =
     (None, s\<lparr>mSchedQueue := q, mLastOrderedDoneNo := mLastOrderedDoneNo s + 1,
              mDones := map_modify tg (\<lambda>d. d\<lparr>complete := ASYNC_COMPLETE_SUCCESS\<rparr>) (mDones s)\<rparr>)"
  by (simp add: done1_def Let_def)

lemma done1_out_of_order:
  "map_of (mDones s) tg = Some it \<Longrightarrow> complete it = 0 \<Longrightarrow>
   erase (schedItem it) (mSchedQueue s) = Inr q \<Longrightarrow> order it \<noteq> 0 \<Longrightarrow>
   order it \<noteq> mLastOrderedDoneNo s + 1 \<Longrightarrow>
   done1 tg s =
     doError (''Did not resolve in expected order. Expected: '' @ to_string (order it) @
              '', actual: '' @ to_string (mLastOrderedDoneNo s + 1)) tg True
       (s\<lparr>mSchedQueue := q, mLastOrderedDoneNo := mLastOrderedDoneNo s + 1\<rparr>)"
  by (simp add: done1_def Let_def)

lemma done1_cases [case_names unknown resolved invalid unordered in_order out_of_order]:
  assumes "map_of (mDones s) tg = None \<Longrightarrow> P"
    and "\<And>it. map_of (mDones s) tg = Some it \<Longrightarrow> complete it \<noteq> 0 \<Longrightarrow> P"
    and "\<And>it e. map_of (mDones s) tg = Some it \<Longrightarrow> complete it = 0 \<Longrightarrow>
           erase (schedItem it) (mSchedQueue s) = Inl e \<Longrightarrow> P"
    and "\<And>it q. map_of (mDones s) tg = Some it \<Longrightarrow> complete it = 0 \<Longrightarrow>
           erase (schedItem it) (mSchedQueue s) = Inr q \<Longrightarrow> order it = 0 \<Longrightarrow> P"
    and "\<And>it q. map_of (mDones s) tg = Some it \<Longrightarrow> complete it = 0 \<Longrightarrow>
           erase (schedItem it) (mSchedQueue s) = Inr q \<Longrightarrow> order it \<noteq> 0 \<Longrightarrow>
           order it = mLastOrderedDoneNo s + 1 \<Longrightarrow> P"
    and "\<And>it q. map_of (mDones s) tg = Some it \<Longrightarrow> complete it = 0 \<Longrightarrow>
           erase (schedItem it) (mSchedQueue s) = Inr q \<Longrightarrow> order it \<noteq> 0 \<Longrightarrow>
           order it \<noteq> mLastOrderedDoneNo s + 1 \<Longrightarrow> P"
  shows P
proof (cases "map_of (mDones s) tg")
  case None
  then show ?thesis by (rule assms(1))
next
  case (Some it)
  show ?thesis
  proof (cases "complete it = 0")
    case False
    with Some show ?thesis by (rule assms(2))
  next
    case True
    show ?thesis
    proof (cases "erase (schedItem it) (mSchedQueue s)")
      case (Inl e)
      with Some True show ?thesis by (rule assms(3))
    next
      case (Inr q)
      show ?thesis
        using assms(4-6) [OF Some True Inr] by blast
    qed
  qed
qed

lemma exec_preserves:
  assumes step: "\<And>c s. (\<forall>body handler. c \<noteq> CallTry body handler) \<Longrightarrow> P s \<Longrightarrow>
                   P (snd (execCall c s))"
  shows "P s \<Longrightarrow> P (snd (execCall c s))" and "P s \<Longrightarrow> P (snd (execCalls cs s))"
proof (induction c s and cs s rule: execCall_execCalls.induct)
  case (1 tg s)
  then show ?case by (intro step) simp_all
next
  case (2 msg s)
  then show ?case by (intro step) simp_all
next
  case (3 tg msg s)
  then show ?case by (intro step) simp_all
next
  case (4 s)
  then show ?case by (intro step) simp_all
next
  case (5 cs after aJitterPct s)
  then show ?case by (intro step) simp_all
next
  case (6 n s)
  then show ?case by (intro step) simp_all
next
  case (7 msg s)
  then show ?case by (intro step) simp_all
next
  case (8 pct s)
  then show ?case by (intro step) simp_all
next
  case (9 body handler s)
  obtain e s1 where ex: "execCalls body s = (e, s1)" by (cases "execCalls body s")
  have p1: "P s1" using "9.IH"(1) [OF "9.prems"] ex by simp
  show ?case
  proof (cases e)
    case None
    then show ?thesis using ex p1 by simp
  next
    case (Some x)
    show ?thesis
    proof (cases x)
      case (RuntimeError m)
      have "P (snd (execCalls handler s1))"
        using "9.IH"(2) [of e s1 x m] ex Some RuntimeError p1 by simp
      then show ?thesis using ex Some RuntimeError by simp
    next
      case (Undefined u)
      then show ?thesis using ex Some p1 by simp
    qed
  qed
next
  case (10 s)
  then show ?case by simp
next
  case (11 c cs s)
  obtain e s1 where ex: "execCall c s = (e, s1)" by (cases "execCall c s")
  have p1: "P s1" using "11.IH"(1) [OF "11.prems"] ex by simp
  show ?case
  proof (cases e)
    case None
    then show ?thesis using ex p1 "11.IH"(2) [of e s1] by simp
  next
    case (Some x)
    then show ?thesis using ex p1 by simp
  qed
qed

lemma mDones_usageError: "mDones (snd (usageError msg s)) = mDones s"
  by (simp add: usageError_def)

lemma mComplete_usageError: "mComplete (snd (usageError msg s)) = mComplete s"
  by (simp add: usageError_def)

lemma fst_usageError: "fst (usageError msg s) = Some (RuntimeError msg)"
  by (simp add: usageError_def)

lemma resolved_doError: "resolved s k \<Longrightarrow> resolved (snd (doError msg tg nt s)) k"
  by (auto simp: doError_def Let_def usageError_def resolved_def map_of_map_modify
      ASYNC_COMPLETE_ERROR_def split: option.splits)

lemma resolved_done1: "resolved s k \<Longrightarrow> resolved (snd (done1 tg s)) k"
proof (cases rule: done1_cases [of s tg])
  case unknown
  then show "resolved s k \<Longrightarrow> ?thesis"
    by (simp add: done1_unknown resolved_def mDones_usageError)
next
  case (resolved it)
  then show "resolved s k \<Longrightarrow> ?thesis" by (simp add: done1_resolved resolved_doError)
next
  case (invalid it e)
  then show "resolved s k \<Longrightarrow> ?thesis" by (simp add: done1_invalid)
next
  case (unordered it q)
  then show "resolved s k \<Longrightarrow> ?thesis"
    by (auto simp: done1_unordered resolved_def map_of_map_modify ASYNC_COMPLETE_SUCCESS_def
        split: option.splits)
next
  case (in_order it q)
  then show "resolved s k \<Longrightarrow> ?thesis"
    by (auto simp: done1_in_order resolved_def map_of_map_modify ASYNC_COMPLETE_SUCCESS_def
        split: option.splits)
next
  case (out_of_order it q)
  assume r: "resolved s k"
  have "resolved (s\<lparr>mSchedQueue := q, mLastOrderedDoneNo := mLastOrderedDoneNo s + 1\<rparr>) k"
    using r by (simp add: resolved_def)
  then show ?thesis using out_of_order by (simp add: done1_out_of_order resolved_doError)
qed

lemma resolved_prim:
  "(\<forall>body handler. c \<noteq> CallTry body handler) \<Longrightarrow> resolved s k \<Longrightarrow>
   resolved (snd (execCall c s)) k"
proof (cases c)
  case (CallDone tg)
  assume "resolved s k"
  then have "resolved (s\<lparr>doneCalls := doneCalls s @ [tg]\<rparr>) k" by (simp add: resolved_def)
  then show ?thesis using CallDone by (simp add: resolved_done1)
next
  case (CallSched cs a p)
  assume "resolved s k"
  then show ?thesis using CallSched schedCall_fields [of "UserCall cs" a p s]
    by (simp add: resolved_def)
next
  case (CallError msg)
  assume "resolved s k"
  then show ?thesis using CallError by (simp add: error1_def resolved_doError)
next
  case (CallErrorTag tg msg)
  assume "resolved s k"
  then show ?thesis using CallErrorTag
    by (simp add: error2_def resolved_doError) (simp add: resolved_def usageError_def)
next
  case CallAbort
  assume "resolved s k"
  then show ?thesis using CallAbort by (simp add: abort_def resolved_def)
next
  case (Elapse n)
  assume "resolved s k"
  then show ?thesis using Elapse by (simp add: resolved_def)
next
  case (SetErrorMsg msg)
  assume "resolved s k"
  then show ?thesis using SetErrorMsg by (simp add: resolved_def)
next
  case (SetJitterPct pct)
  assume "resolved s k"
  then show ?thesis using SetJitterPct by (simp add: resolved_def)
next
  case (CallTry body handler)
  assume "\<forall>body handler. c \<noteq> CallTry body handler"
  then show ?thesis using CallTry by simp
qed

lemma resolved_execCall: "resolved s k \<Longrightarrow> resolved (snd (execCall c s)) k"
  by (rule exec_preserves(1) [where P = "\<lambda>s. resolved s k"]) (rule resolved_prim)

lemma resolved_execCalls: "resolved s k \<Longrightarrow> resolved (snd (execCalls cs s)) k"
  by (rule exec_preserves(2) [where P = "\<lambda>s. resolved s k"]) (rule resolved_prim)

lemma resolved_execItem: "resolved s k \<Longrightarrow> resolved (snd (execItem c s)) k"
proof (cases c)
  case (UserCall cs)
  assume "resolved s k"
  then show ?thesis using UserCall by (simp add: resolved_execCalls)
next
  case (DoneTimeout tg)
  assume "resolved s k"
  then show ?thesis using DoneTimeout
    by (simp add: doneTimeout_def resolved_doError split: option.splits)
qed


lemma error_done1:
  "mComplete s = ASYNC_COMPLETE_ERROR \<Longrightarrow> mComplete (snd (done1 tg s)) = ASYNC_COMPLETE_ERROR"
proof (cases rule: done1_cases [of s tg])
  case unknown
  then show "mComplete s = ASYNC_COMPLETE_ERROR \<Longrightarrow> ?thesis"
    by (simp add: done1_unknown mComplete_usageError)
next
  case (resolved it)
  then show ?thesis by (simp add: done1_resolved mComplete_doError)
next
  case (invalid it e)
  then show "mComplete s = ASYNC_COMPLETE_ERROR \<Longrightarrow> ?thesis" by (simp add: done1_invalid)
next
  case (unordered it q)
  then show "mComplete s = ASYNC_COMPLETE_ERROR \<Longrightarrow> ?thesis" by (simp add: done1_unordered)
next
  case (in_order it q)
  then show "mComplete s = ASYNC_COMPLETE_ERROR \<Longrightarrow> ?thesis" by (simp add: done1_in_order)
next
  case (out_of_order it q)
  then show ?thesis by (simp add: done1_out_of_order mComplete_doError)
qed

lemma error_prim:
  "(\<forall>body handler. c \<noteq> CallTry body handler) \<Longrightarrow> mComplete s = ASYNC_COMPLETE_ERROR \<Longrightarrow>
   mComplete (snd (execCall c s)) = ASYNC_COMPLETE_ERROR"
proof (cases c)
  case (CallDone tg)
  assume "mComplete s = ASYNC_COMPLETE_ERROR"
  then show ?thesis using CallDone error_done1 [of "s\<lparr>doneCalls := doneCalls s @ [tg]\<rparr>" tg]
    by simp
next
  case (CallSched cs a p)
  assume "mComplete s = ASYNC_COMPLETE_ERROR"
  then show ?thesis using CallSched schedCall_fields [of "UserCall cs" a p s] by simp
next
  case (CallError msg)
  then show ?thesis by (simp add: error1_def mComplete_doError)
next
  case (CallErrorTag tg msg)
  assume "mComplete s = ASYNC_COMPLETE_ERROR"
  then show ?thesis using CallErrorTag
    by (simp add: error2_def mComplete_doError mComplete_usageError)
next
  case CallAbort
  assume "mComplete s = ASYNC_COMPLETE_ERROR"
  then show ?thesis using CallAbort by (simp add: abort_def ASYNC_COMPLETE_ERROR_def)
next
  case (Elapse n)
  assume "mComplete s = ASYNC_COMPLETE_ERROR"
  then show ?thesis using Elapse by simp
next
  case (SetErrorMsg msg)
  assume "mComplete s = ASYNC_COMPLETE_ERROR"
  then show ?thesis using SetErrorMsg by simp
next
  case (SetJitterPct pct)
  assume "mComplete s = ASYNC_COMPLETE_ERROR"
  then show ?thesis using SetJitterPct by simp
next
  case (CallTry body handler)
  assume "\<forall>body handler. c \<noteq> CallTry body handler"
  then show ?thesis using CallTry by simp
qed

lemma error_execCall:
  "mComplete s = ASYNC_COMPLETE_ERROR \<Longrightarrow> mComplete (snd (execCall c s)) = ASYNC_COMPLETE_ERROR"
  by (rule exec_preserves(1) [where P = "\<lambda>s. mComplete s = ASYNC_COMPLETE_ERROR"])
    (rule error_prim)

lemma error_execCalls:
  "mComplete s = ASYNC_COMPLETE_ERROR \<Longrightarrow> mComplete (snd (execCalls cs s)) = ASYNC_COMPLETE_ERROR"
  by (rule exec_preserves(2) [where P = "\<lambda>s. mComplete s = ASYNC_COMPLETE_ERROR"])
    (rule error_prim)

lemma makes_call_top:
  "execCalls pre s = (None, sp) \<Longrightarrow> makes_call (pre @ c # post) s c sp"
proof (induction pre arbitrary: s)
  case Nil
  then show ?case by (simp add: makes_first)
next
  case (Cons c' pre)
  obtain e s1 where ex: "execCall c' s = (e, s1)" by (cases "execCall c' s")
  show ?case
  proof (cases e)
    case None
    then have "makes_call (pre @ c # post) s1 c sp" using ex Cons by simp
    then show ?thesis using makes_later [of c' s s1] ex None by simp
  next
    case (Some x)
    then show ?thesis using ex Cons.prems by simp
  qed
qed

lemma makes_call_error:
  "makes_call cs s c sp \<Longrightarrow> mComplete (snd (execCall c sp)) = ASYNC_COMPLETE_ERROR \<Longrightarrow>
   mComplete (snd (execCalls cs s)) = ASYNC_COMPLETE_ERROR"
proof (induction rule: makes_call.induct)
  case (makes_first c cs s)
  obtain e s1 where ex: "execCall c s = (e, s1)" by (cases "execCall c s")
  have e1: "mComplete s1 = ASYNC_COMPLETE_ERROR" using makes_first ex by simp
  show ?case using ex e1 error_execCalls [OF e1, of cs] by (cases e) simp_all
next
  case (makes_later c' s s1 cs c sp)
  then show ?case by simp
next
  case (makes_tried body s c sp handler cs)
  have b: "mComplete (snd (execCalls body s)) = ASYNC_COMPLETE_ERROR"
    using makes_tried by simp
  obtain e s1 where ex: "execCalls body s = (e, s1)" by (cases "execCalls body s")
  have e1: "mComplete s1 = ASYNC_COMPLETE_ERROR" using b ex by simp
  have t: "mComplete (snd (execCall (CallTry body handler) s)) = ASYNC_COMPLETE_ERROR"
  proof (cases e)
    case None
    then show ?thesis using ex e1 by simp
  next
    case (Some x)
    then show ?thesis using ex e1 error_execCalls [OF e1, of handler] by (cases x) simp_all
  qed
  obtain e2 s2 where ex2: "execCall (CallTry body handler) s = (e2, s2)"
    by (cases "execCall (CallTry body handler) s")
  have e2: "mComplete s2 = ASYNC_COMPLETE_ERROR" using t ex2 by simp
  show ?case using ex2 e2 error_execCalls [OF e2, of cs] by (cases e2) simp_all
next
  case (makes_caught body s m s1 handler c sp cs)
  have h: "mComplete (snd (execCalls handler s1)) = ASYNC_COMPLETE_ERROR"
    using makes_caught by simp
  have t: "execCall (CallTry body handler) s = execCalls handler s1"
    using makes_caught.hyps(1) by simp
  obtain e2 s2 where ex2: "execCalls handler s1 = (e2, s2)" by (cases "execCalls handler s1")
  have e2: "mComplete s2 = ASYNC_COMPLETE_ERROR" using h ex2 by simp
  show ?case using t ex2 e2 error_execCalls [OF e2, of cs] by (cases e2) simp_all
qed

lemma in_callback_top:
  assumes "mSchedQueue s \<noteq> []" and "mComplete s = 0"
    and "snd (snd (hd (mSchedQueue s))) = UserCall (pre @ c # post)"
    and "execCalls pre (due_entry s) = (None, sp)"
  shows "in_callback s c sp"
  using assms makes_call_top [OF assms(4), of c post] by (simp add: in_callback_def)

lemma in_callback_cases:
  assumes "in_callback s c sp"
  obtains cs where "mSchedQueue s \<noteq> []" and "mComplete s = 0"
    and "snd (snd (hd (mSchedQueue s))) = UserCall cs" and "makes_call cs (due_entry s) c sp"
  using assms by (auto simp: in_callback_def split: SchedItem.splits)

lemma run_callback_error:
  assumes "mSchedQueue s0 \<noteq> []" and "iterates (addAllDonesToLoop (initColors tty s0)) s"
    and "in_callback s c sp"
    and "mComplete (snd (execCall c sp)) = ASYNC_COMPLETE_ERROR"
  shows "mComplete (snd (run tty s0)) = ASYNC_COMPLETE_ERROR"
proof -
  obtain cs where q: "mSchedQueue s \<noteq> []" and z: "mComplete s = 0"
    and u: "snd (snd (hd (mSchedQueue s))) = UserCall cs"
    and p: "makes_call cs (due_entry s) c sp"
    using assms(3) by (rule in_callback_cases)
  have "run_iteration s = execCalls cs (due_entry s)"
    using u by (simp add: run_iteration_due)
  moreover have "mComplete (snd (execCalls cs (due_entry s))) = ASYNC_COMPLETE_ERROR"
    using makes_call_error [OF p assms(4)] .
  ultimately have ri: "mComplete (snd (run_iteration s)) = ASYNC_COMPLETE_ERROR"
    by (simp only:)
  obtain e3 s3 where r: "run_iteration s = (e3, s3)" by (cases "run_iteration s")
  have e3: "mComplete s3 = ASYNC_COMPLETE_ERROR" using ri r by simp
  have "mComplete s3 \<noteq> 0" using e3 by (simp add: ASYNC_COMPLETE_ERROR_def)
  then have "run tty s0 = (e3, s3)" using run_ends [OF assms(1,2) q z r] by simp
  then show ?thesis using e3 by simp
qed

section \<open>The order of resolution: an invariant of the loop\<close>

lemma ordered_order_of: "ordered s k = (case order_of s k of None \<Rightarrow> False | Some v \<Rightarrow> v \<noteq> 0)"
  by (simp add: ordered_def order_of_def split: option.splits)

lemma order_of_same: "mDones s' = mDones s \<Longrightarrow> order_of s' = order_of s"
  by (simp add: order_of_def fun_eq_iff)

lemma order_of_modify:
  assumes "mDones s' = map_modify k f (mDones s)" and "\<And>d. order (f d) = order d"
  shows "order_of s' = order_of s"
proof
  fix k'
  show "order_of s' k' = order_of s k'"
    using assms by (cases "map_of (mDones s) k'") (auto simp: order_of_def map_of_map_modify)
qed

lemma order_of_usageError: "order_of (snd (usageError msg s)) = order_of s"
  by (rule order_of_same) (simp add: usageError_def)

lemma order_of_doError: "order_of (snd (doError msg tg nt s)) = order_of s"
proof (cases "mComplete s = ASYNC_COMPLETE_ERROR")
  case True
  then show ?thesis by (simp add: doError_error)
next
  case False
  show ?thesis
  proof (cases "tg = []")
    case True
    then show ?thesis using doError_untagged [OF False, of msg nt]
      by (intro order_of_same) simp
  next
    case ne: False
    show ?thesis
    proof (cases "map_of (mDones s) tg")
      case None
      then show ?thesis using doError_unknown [OF False ne None, of msg nt]
        by (intro order_of_same) simp
    next
      case (Some it)
      show ?thesis
        by (rule order_of_modify [where k = tg and f = "\<lambda>d. d\<lparr>complete := ASYNC_COMPLETE_ERROR\<rparr>"])
          (simp_all add: doError_tagged [OF False ne Some, of msg nt])
    qed
  qed
qed

lemma order_of_done1: "order_of (snd (done1 tg s)) = order_of s"
proof (cases rule: done1_cases [of s tg])
  case unknown
  then show ?thesis by (simp add: done1_unknown order_of_usageError)
next
  case (resolved it)
  then show ?thesis by (simp add: done1_resolved order_of_doError)
next
  case (invalid it e)
  then show ?thesis by (simp add: done1_invalid)
next
  case (unordered it q)
  show ?thesis
    by (rule order_of_modify [where k = tg and f = "\<lambda>d. d\<lparr>complete := ASYNC_COMPLETE_SUCCESS\<rparr>"])
      (simp_all add: done1_unordered [OF unordered])
next
  case (in_order it q)
  show ?thesis
    by (rule order_of_modify [where k = tg and f = "\<lambda>d. d\<lparr>complete := ASYNC_COMPLETE_SUCCESS\<rparr>"])
      (simp_all add: done1_in_order [OF in_order])
next
  case (out_of_order it q)
  have "order_of (s\<lparr>mSchedQueue := q, mLastOrderedDoneNo := mLastOrderedDoneNo s + 1\<rparr>) = order_of s"
    by (rule order_of_same) simp
  then show ?thesis by (simp add: done1_out_of_order [OF out_of_order] order_of_doError)
qed

lemma order_of_prim:
  assumes "\<forall>body handler. c \<noteq> CallTry body handler"
  shows "order_of (snd (execCall c s)) = order_of s"
proof (cases c)
  case (CallDone tg)
  have "order_of (s\<lparr>doneCalls := doneCalls s @ [tg]\<rparr>) = order_of s" by (rule order_of_same) simp
  then show ?thesis using CallDone by (simp add: order_of_done1)
next
  case (CallSched cs a p)
  have "order_of (snd (schedCall (UserCall cs) a p s)) = order_of s"
    using schedCall_fields [of "UserCall cs" a p s] by (intro order_of_same) simp
  then show ?thesis using CallSched by simp
next
  case (CallError msg)
  then show ?thesis by (simp add: error1_def order_of_doError)
next
  case (CallErrorTag tg msg)
  then show ?thesis by (simp add: error2_def order_of_doError order_of_usageError)
next
  case CallAbort
  have "order_of (abort s) = order_of s" by (rule order_of_same) (simp add: abort_def)
  then show ?thesis using CallAbort by simp
next
  case (Elapse n)
  have "order_of (s\<lparr>clock := clock s + int n\<rparr>) = order_of s" by (rule order_of_same) simp
  then show ?thesis using Elapse by simp
next
  case (SetErrorMsg msg)
  have "order_of (s\<lparr>errorMsg := msg\<rparr>) = order_of s" by (rule order_of_same) simp
  then show ?thesis using SetErrorMsg by simp
next
  case (SetJitterPct pct)
  have "order_of (s\<lparr>jitterPct := pct\<rparr>) = order_of s" by (rule order_of_same) simp
  then show ?thesis using SetJitterPct by simp
next
  case (CallTry body handler)
  then show ?thesis using assms by simp
qed

lemma order_of_execCall: "order_of (snd (execCall c s)) = order_of s"
proof -
  have st: "order_of (snd (execCall c' t)) = order_of s"
    if "\<forall>body handler. c' \<noteq> CallTry body handler" and "order_of t = order_of s" for c' t
    using order_of_prim [OF that(1), of t] that(2) by simp
  show ?thesis
    by (rule exec_preserves(1) [where P = "\<lambda>t. order_of t = order_of s", OF st]) simp_all
qed

lemma order_of_execCalls: "order_of (snd (execCalls cs s)) = order_of s"
proof -
  have st: "order_of (snd (execCall c' t)) = order_of s"
    if "\<forall>body handler. c' \<noteq> CallTry body handler" and "order_of t = order_of s" for c' t
    using order_of_prim [OF that(1), of t] that(2) by simp
  show ?thesis
    by (rule exec_preserves(2) [where P = "\<lambda>t. order_of t = order_of s", OF st]) simp_all
qed

lemma order_of_execItem: "order_of (snd (execItem c s)) = order_of s"
  by (cases c) (simp_all add: order_of_execCalls doneTimeout_def order_of_doError split: option.splits)

lemma order_of_due_entry: "order_of (due_entry s) = order_of s"
  by (rule order_of_same) (simp add: due_entry_fields)

lemma order_of_run_iteration: "order_of (snd (run_iteration s)) = order_of s"
  by (simp add: run_iteration_due order_of_execItem order_of_due_entry)

lemma order_of_run_loop: "order_of (snd (run_loop s)) = order_of s"
proof (induction s rule: run_loop_induct)
  case (stop s)
  then show ?case by (simp add: run_loop_stop)
next
  case (iter s)
  obtain e s3 where r: "run_iteration s = (e, s3)" by (cases "run_iteration s")
  have o3: "order_of s3 = order_of s" using order_of_run_iteration [of s] r by simp
  show ?case
  proof (cases e)
    case None
    then show ?thesis using r iter o3 by (simp add: run_loop_unfold)
  next
    case (Some x)
    then show ?thesis using r iter(1,2) o3 by (simp add: run_loop_unfold)
  qed
qed

lemma advances_refl: "advances c c"
  by (simp add: advances_def)

lemma advances_trans: "advances a b \<Longrightarrow> advances b c \<Longrightarrow> advances a c"
  by (auto simp: advances_def ASYNC_COMPLETE_ERROR_def ASYNC_COMPLETE_ABORTED_def)

lemma advances_doError: "advances (mComplete s) (mComplete (snd (doError msg tg nt s)))"
  by (simp add: advances_def mComplete_doError)

lemma advances_done1: "advances (mComplete s) (mComplete (snd (done1 tg s)))"
proof (cases rule: done1_cases [of s tg])
  case unknown
  then show ?thesis by (simp add: done1_unknown mComplete_usageError advances_refl)
next
  case (resolved it)
  then show ?thesis by (simp add: done1_resolved advances_doError)
next
  case (invalid it e)
  then show ?thesis by (simp add: done1_invalid advances_refl)
next
  case (unordered it q)
  then show ?thesis by (simp add: done1_unordered advances_refl)
next
  case (in_order it q)
  then show ?thesis by (simp add: done1_in_order advances_refl)
next
  case (out_of_order it q)
  then show ?thesis by (simp add: done1_out_of_order mComplete_doError advances_def)
qed

lemma advances_prim:
  assumes "\<forall>body handler. c \<noteq> CallTry body handler"
  shows "advances (mComplete s) (mComplete (snd (execCall c s)))"
proof (cases c)
  case (CallDone tg)
  then show ?thesis using advances_done1 [of "s\<lparr>doneCalls := doneCalls s @ [tg]\<rparr>" tg] by simp
next
  case (CallSched cs a p)
  then show ?thesis using schedCall_fields [of "UserCall cs" a p s] by (simp add: advances_refl)
next
  case (CallError msg)
  then show ?thesis by (simp add: error1_def advances_doError)
next
  case (CallErrorTag tg msg)
  then show ?thesis by (simp add: error2_def advances_doError mComplete_usageError advances_refl)
next
  case CallAbort
  then show ?thesis by (simp add: abort_def advances_def)
next
  case (Elapse n)
  then show ?thesis by (simp add: advances_refl)
next
  case (SetErrorMsg msg)
  then show ?thesis by (simp add: advances_refl)
next
  case (SetJitterPct pct)
  then show ?thesis by (simp add: advances_refl)
next
  case (CallTry body handler)
  then show ?thesis using assms by simp
qed

lemma advances_execCall: "advances (mComplete s) (mComplete (snd (execCall c s)))"
proof -
  have st: "advances (mComplete s) (mComplete (snd (execCall c' t)))"
    if "\<forall>body handler. c' \<noteq> CallTry body handler" and "advances (mComplete s) (mComplete t)"
    for c' t
    using advances_trans [OF that(2) advances_prim [OF that(1), of t]] .
  show ?thesis
    by (rule exec_preserves(1) [where P = "\<lambda>t. advances (mComplete s) (mComplete t)", OF st])
      (simp_all add: advances_refl)
qed

lemma advances_execCalls: "advances (mComplete s) (mComplete (snd (execCalls cs s)))"
proof -
  have st: "advances (mComplete s) (mComplete (snd (execCall c' t)))"
    if "\<forall>body handler. c' \<noteq> CallTry body handler" and "advances (mComplete s) (mComplete t)"
    for c' t
    using advances_trans [OF that(2) advances_prim [OF that(1), of t]] .
  show ?thesis
    by (rule exec_preserves(2) [where P = "\<lambda>t. advances (mComplete s) (mComplete t)", OF st])
      (simp_all add: advances_refl)
qed

lemma distinct_map_eq:
  "distinct (map f xs) \<Longrightarrow> x \<in> set xs \<Longrightarrow> y \<in> set xs \<Longrightarrow> f x = f y \<Longrightarrow> x = y"
  by (auto simp: distinct_map dest: inj_onD)

lemma set_emplace: "set (emplace ts h c q) = insert (ts, h, c) (set q)"
  by (induction q) auto

lemma distinct_emplace:
  "distinct (map (\<lambda>e. fst (snd e)) (emplace ts h c q)) =
   (h \<notin> (\<lambda>e. fst (snd e)) ` set q \<and> distinct (map (\<lambda>e. fst (snd e)) q))"
  by (induction q) (auto simp: set_emplace)

lemma handles_ok_emplace:
  assumes "handles_ok s" and "mSchedQueue s' = emplace ts (nextIter s) c (mSchedQueue s)"
    and "nextIter s' = Suc (nextIter s)"
  shows "handles_ok s'"
proof -
  have d: "distinct (map (\<lambda>e. fst (snd e)) (mSchedQueue s))"
    and b: "\<And>e. e \<in> set (mSchedQueue s) \<Longrightarrow> fst (snd e) < nextIter s"
    using assms(1) by (auto simp: handles_ok_def)
  have "nextIter s \<notin> (\<lambda>e. fst (snd e)) ` set (mSchedQueue s)" using b by fastforce
  then have "distinct (map (\<lambda>e. fst (snd e)) (mSchedQueue s'))"
    using d by (simp add: assms(2) distinct_emplace)
  moreover have "\<forall>e \<in> set (mSchedQueue s'). fst (snd e) < nextIter s'"
    using b by (auto simp: assms(2,3) set_emplace less_Suc_eq)
  ultimately show ?thesis by (simp add: handles_ok_def)
qed

lemma handles_ok_sub:
  assumes "handles_ok s" and "nextIter s' = nextIter s"
    and "mSchedQueue s' = filter P (mSchedQueue s) \<or> mSchedQueue s' = tl (mSchedQueue s)"
  shows "handles_ok s'"
proof -
  have d: "distinct (map (\<lambda>e. fst (snd e)) (mSchedQueue s))"
    and b: "\<And>e. e \<in> set (mSchedQueue s) \<Longrightarrow> fst (snd e) < nextIter s"
    using assms(1) by (auto simp: handles_ok_def)
  have sub: "set (mSchedQueue s') \<subseteq> set (mSchedQueue s)"
    using assms(3)
  proof
    assume "mSchedQueue s' = filter P (mSchedQueue s)"
    then show ?thesis by auto
  next
    assume t: "mSchedQueue s' = tl (mSchedQueue s)"
    show ?thesis unfolding t by (cases "mSchedQueue s") auto
  qed
  have "distinct (map (\<lambda>e. fst (snd e)) (mSchedQueue s'))"
    using assms(3) d by (auto simp: distinct_map_filter distinct_tl map_tl)
  then show ?thesis using sub b by (auto simp: handles_ok_def assms(2))
qed

lemma ordered_resolves_eq:
  "order_of s' = order_of s \<Longrightarrow> doneCalls s' = doneCalls s \<Longrightarrow>
   ordered_resolves s' = ordered_resolves s"
  by (simp add: ordered_resolves_def ordered_order_of [abs_def])

lemma log_ok_same:
  assumes "log_ok s" and "mDones s' = mDones s" and "doneCalls s' = doneCalls s"
    and "mLastOrderedDoneNo s' = mLastOrderedDoneNo s"
  shows "log_ok s'"
proof -
  have "ordered_resolves s' = ordered_resolves s"
    using assms(2,3) by (simp add: ordered_resolves_def ordered_def [abs_def])
  then show ?thesis using assms by (simp add: log_ok_def)
qed

lemma dones_ok_same:
  assumes "dones_ok s" and "mDones s' = mDones s" and "set (mSchedQueue s) \<subseteq> set (mSchedQueue s')"
  shows "dones_ok s'"
  using assms unfolding dones_ok_def by (metis subsetD)

lemma good_resolve:
  assumes g: "good s" and it: "map_of (mDones s) tg = Some it" and p: "complete it = 0"
    and er: "erase (schedItem it) (mSchedQueue s) = Inr q"
    and f2: "mSchedQueue s' = q"
    and f3: "nextIter s' = nextIter s"
    and f4: "mDones s' = map_modify tg (\<lambda>d. d\<lparr>complete := ASYNC_COMPLETE_SUCCESS\<rparr>) (mDones s)"
    and f5: "doneCalls s' = doneCalls s @ [tg]"
    and o0: "order it = 0 \<Longrightarrow> mLastOrderedDoneNo s' = mLastOrderedDoneNo s"
    and o1: "order it \<noteq> 0 \<Longrightarrow>
             order it = mLastOrderedDoneNo s + 1 \<and> mLastOrderedDoneNo s' = mLastOrderedDoneNo s + 1"
  shows "good s'"
proof -
  have hk: "handles_ok s" and dk: "dones_ok s" and lk: "log_ok s"
    using g by (simp_all add: good_def)
  obtain h where h: "schedItem it = Some h"
    and q: "q = filter (\<lambda>e. fst (snd e) \<noteq> h) (mSchedQueue s)"
    using er by (auto simp: erase_def split: option.splits if_splits)
  obtain ts where ent: "(ts, h, DoneTimeout tg) \<in> set (mSchedQueue s)"
    using dk it p h unfolding dones_ok_def by fastforce
  have dist: "distinct (map (\<lambda>e. fst (snd e)) (mSchedQueue s))"
    using hk by (simp add: handles_ok_def)
  have mo: "map_of (mDones s') k =
      (if k = tg then Some (it\<lparr>complete := ASYNC_COMPLETE_SUCCESS\<rparr>) else map_of (mDones s) k)" for k
    using it by (simp add: f4 map_of_map_modify)
  \<comment> \<open>the queue\<close>
  have hk': "handles_ok s'"
    by (rule handles_ok_sub [OF hk f3, of "\<lambda>e. fst (snd e) \<noteq> h"]) (simp add: f2 q)
  \<comment> \<open>the done() items\<close>
  have dk': "dones_ok s'"
    unfolding dones_ok_def
  proof (intro allI impI)
    fix k d assume kd: "map_of (mDones s') k = Some d"
    show "(complete d = 0 \<or> complete d = ASYNC_COMPLETE_SUCCESS) \<and>
        (complete d = 0 \<longrightarrow>
           (\<exists>h ts. schedItem d = Some h \<and> (ts, h, DoneTimeout k) \<in> set (mSchedQueue s')))"
    proof (cases "k = tg")
      case True
      then have "complete d = ASYNC_COMPLETE_SUCCESS" using kd mo [of k] by auto
      then show ?thesis by (simp add: ASYNC_COMPLETE_SUCCESS_def)
    next
      case False
      then have old: "map_of (mDones s) k = Some d" using kd mo [of k] by simp
      have c: "complete d = 0 \<or> complete d = ASYNC_COMPLETE_SUCCESS"
        using dk old unfolding dones_ok_def by blast
      have "\<exists>h ts. schedItem d = Some h \<and> (ts, h, DoneTimeout k) \<in> set (mSchedQueue s')"
        if pd: "complete d = 0"
      proof -
        obtain h2 ts2 where h2: "schedItem d = Some h2"
          and e2: "(ts2, h2, DoneTimeout k) \<in> set (mSchedQueue s)"
          using dk old pd unfolding dones_ok_def by blast
        have "h2 \<noteq> h"
        proof
          assume "h2 = h"
          then have "(ts2, h2, DoneTimeout k) = (ts, h, DoneTimeout tg)"
            using distinct_map_eq [OF dist e2 ent] by simp
          then show False using False by simp
        qed
        then have "(ts2, h2, DoneTimeout k) \<in> set (mSchedQueue s')" using e2 by (simp add: f2 q)
        then show ?thesis using h2 by blast
      qed
      then show ?thesis using c by blast
    qed
  qed
  \<comment> \<open>the log\<close>
  define OL where "OL = ordered_resolves s"
  have oo: "order_of s' = order_of s"
    by (rule order_of_modify [OF f4]) simp
  have otg: "ordered s tg = (order it \<noteq> 0)" using it by (simp add: ordered_def)
  have OL': "ordered_resolves s' = OL @ (if order it \<noteq> 0 then [tg] else [])"
    using otg by (simp add: ordered_resolves_def OL_def f5 ordered_order_of [abs_def] oo)
  have len: "int (length OL) = mLastOrderedDoneNo s"
    and nth: "\<And>i. i < length OL \<Longrightarrow>
        \<exists>d. map_of (mDones s) (OL ! i) = Some d \<and> order d = int i + 1 \<and>
            complete d = ASYNC_COMPLETE_SUCCESS"
    and mem: "\<And>k d. map_of (mDones s) k = Some d \<Longrightarrow> order d \<noteq> 0 \<Longrightarrow>
        complete d = ASYNC_COMPLETE_SUCCESS \<Longrightarrow> k \<in> set OL"
    using lk unfolding log_ok_def OL_def by blast+
  have nth': "\<exists>d. map_of (mDones s') (OL ! i) = Some d \<and> order d = int i + 1 \<and>
            complete d = ASYNC_COMPLETE_SUCCESS" if il: "i < length OL" for i
  proof -
    obtain d where d: "map_of (mDones s) (OL ! i) = Some d" "order d = int i + 1"
      "complete d = ASYNC_COMPLETE_SUCCESS" using nth [OF il] by blast
    have "OL ! i \<noteq> tg" using d(1,3) it p by (auto simp: ASYNC_COMPLETE_SUCCESS_def)
    then show ?thesis using d mo [of "OL ! i"] by simp
  qed
  have mem': "k \<in> set (ordered_resolves s')"
    if "map_of (mDones s') k = Some d" "order d \<noteq> 0" "complete d = ASYNC_COMPLETE_SUCCESS" for k d
  proof (cases "k = tg")
    case True
    then have "order it \<noteq> 0" using that(1,2) mo [of k] by auto
    then show ?thesis using True by (simp add: OL')
  next
    case False
    then have "map_of (mDones s) k = Some d" using that(1) mo [of k] by simp
    then have "k \<in> set OL" using mem that(2,3) by blast
    then show ?thesis by (simp add: OL')
  qed
  have lk': "log_ok s'"
  proof (cases "order it = 0")
    case True
    then have e: "ordered_resolves s' = OL" by (simp add: OL')
    show ?thesis
      unfolding log_ok_def using mem' nth' len o0 [OF True] by (auto simp: e)
  next
    case False
    then have e: "ordered_resolves s' = OL @ [tg]" by (simp add: OL')
    have c: "mLastOrderedDoneNo s' = mLastOrderedDoneNo s + 1"
      and oi: "order it = mLastOrderedDoneNo s + 1" using o1 [OF False] by simp_all
    have 1: "int (length (ordered_resolves s')) = mLastOrderedDoneNo s'"
      using len c by (simp add: e)
    have 2: "\<exists>d. map_of (mDones s') (ordered_resolves s' ! i) = Some d \<and> order d = int i + 1 \<and>
            complete d = ASYNC_COMPLETE_SUCCESS" if "i < length (ordered_resolves s')" for i
    proof (cases "i < length OL")
      case True
      then show ?thesis using nth' [OF True] by (simp add: e nth_append)
    next
      case False
      then have "i = length OL" using that by (simp add: e)
      then show ?thesis using mo [of tg] oi len by (simp add: e nth_append)
    qed
    show ?thesis unfolding log_ok_def using 1 2 mem' by blast
  qed
  show ?thesis using hk' dk' lk' by (simp add: good_def)
qed

lemma schedCall_queue:
  "(mSchedQueue (snd (schedCall c a p s)) = mSchedQueue s \<and>
    nextIter (snd (schedCall c a p s)) = nextIter s) \<or>
   (\<exists>ts. mSchedQueue (snd (schedCall c a p s)) = emplace ts (nextIter s) c (mSchedQueue s) \<and>
         nextIter (snd (schedCall c a p s)) = Suc (nextIter s))"
proof -
  define p' where "p' = (if p < 0 then jitterPct s else p)"
  define s1 where "s1 = (if mLastOrderTs s = 0 then s\<lparr>mLastOrderTs := getTimeMs s\<rparr> else s)"
  have s1: "mSchedQueue s1 = mSchedQueue s" "nextIter s1 = nextIter s"
    by (simp_all add: s1_def)
  obtain r s2 where j1: "jitter (- a) p' s1 = (r, s2)" by (cases "jitter (- a) p' s1")
  obtain r' s2' where j2: "jitter a p' s = (r', s2')" by (cases "jitter a p' s")
  note f1 = jitter_fields [OF j1] and f2 = jitter_fields [OF j2]
  show ?thesis
    unfolding schedCall_def Let_def p'_def [symmetric] s1_def [symmetric]
    using f1 f2 s1
    by (cases r; cases r') (auto simp: j1 j2 mSchedQueue_schedHandler schedHandler_fields)
qed

lemma log_ok_eq:
  assumes "log_ok s" and "mDones s' = mDones s"
    and "ordered_resolves s' = ordered_resolves s"
    and "mLastOrderedDoneNo s' = mLastOrderedDoneNo s"
  shows "log_ok s'"
  using assms by (simp add: log_ok_def)

lemma good_same:
  assumes "good s" and "mSchedQueue s' = mSchedQueue s"
    and "nextIter s' = nextIter s" and "mDones s' = mDones s" and "doneCalls s' = doneCalls s"
    and "mLastOrderedDoneNo s' = mLastOrderedDoneNo s"
  shows "good s'"
proof -
  have "handles_ok s'" using assms(1,2,3) by (simp add: good_def handles_ok_def)
  moreover have "dones_ok s'"
    using assms(1,2,4) by - (rule dones_ok_same [of s], simp_all add: good_def)
  moreover have "log_ok s'"
    using assms(1,4,5,6) by - (rule log_ok_same [of s], simp_all add: good_def)
  ultimately show ?thesis by (simp add: good_def)
qed

lemma erase_present:
  "(ts, h, c) \<in> set q \<Longrightarrow> erase (Some h) q = Inr (filter (\<lambda>e. fst (snd e) \<noteq> h) q)"
  by (force simp: erase_def)

lemma pending_erase:
  assumes "dones_ok s" and "map_of (mDones s) tg = Some it" and "complete it = 0"
  shows "\<exists>q. erase (schedItem it) (mSchedQueue s) = Inr q"
proof -
  obtain h ts where "schedItem it = Some h" and "(ts, h, DoneTimeout tg) \<in> set (mSchedQueue s)"
    using assms unfolding dones_ok_def by blast
  then show ?thesis using erase_present [of ts h "DoneTimeout tg" "mSchedQueue s"] by simp
qed

lemma good_schedCall:
  assumes "good s"
  shows "good (snd (schedCall c a p s))"
proof -
  define s' where "s' = snd (schedCall c a p s)"
  have f: "mDones s' = mDones s" "errorMsg s' = errorMsg s" "doneCalls s' = doneCalls s"
    "mLastOrderedDoneNo s' = mLastOrderedDoneNo s"
    using schedCall_fields [of c a p s] by (simp_all add: s'_def)
  have q: "(mSchedQueue s' = mSchedQueue s \<and> nextIter s' = nextIter s) \<or>
   (\<exists>ts. mSchedQueue s' = emplace ts (nextIter s) c (mSchedQueue s) \<and> nextIter s' = Suc (nextIter s))"
    using schedCall_queue [of c a p s] by (simp add: s'_def)
  have hk: "handles_ok s" using assms by (simp add: good_def)
  have "handles_ok s'"
    using q
  proof
    assume "mSchedQueue s' = mSchedQueue s \<and> nextIter s' = nextIter s"
    then show ?thesis using hk by (simp add: handles_ok_def)
  next
    assume "\<exists>ts. mSchedQueue s' = emplace ts (nextIter s) c (mSchedQueue s) \<and>
                nextIter s' = Suc (nextIter s)"
    then show ?thesis using handles_ok_emplace [OF hk] by blast
  qed
  moreover have "set (mSchedQueue s) \<subseteq> set (mSchedQueue s')"
    using q by (auto simp: set_emplace)
  then have "dones_ok s'"
    using assms f(1) by - (rule dones_ok_same [of s], simp_all add: good_def)
  moreover have "log_ok s'"
    using assms f by - (rule log_ok_same [of s], simp_all add: good_def)
  ultimately show ?thesis by (simp add: good_def s'_def)
qed

lemma advances_zero:
  "advances c c' \<Longrightarrow> c' = 0 \<Longrightarrow> c = 0"
  by (auto simp: advances_def ASYNC_COMPLETE_ERROR_def ASYNC_COMPLETE_ABORTED_def)

lemma advances_not_success:
  "advances c c' \<Longrightarrow> c \<noteq> ASYNC_COMPLETE_SUCCESS \<Longrightarrow> c' \<noteq> ASYNC_COMPLETE_SUCCESS"
  by (auto simp: advances_def ASYNC_COMPLETE_ERROR_def ASYNC_COMPLETE_ABORTED_def
      ASYNC_COMPLETE_SUCCESS_def)

lemma error_not_zero: "ASYNC_COMPLETE_ERROR \<noteq> 0"
  by (simp add: ASYNC_COMPLETE_ERROR_def)

lemma good_done1:
  assumes g: "good s"
    and z: "mComplete (snd (done1 tg (s\<lparr>doneCalls := doneCalls s @ [tg]\<rparr>))) = 0"
  shows "good (snd (done1 tg (s\<lparr>doneCalls := doneCalls s @ [tg]\<rparr>)))"
proof -
  define sl where "sl = s\<lparr>doneCalls := doneCalls s @ [tg]\<rparr>"
  define s' where "s' = snd (done1 tg sl)"
  have z': "mComplete s' = 0" using z by (simp add: s'_def sl_def)
  have "good s'"
  proof (cases rule: done1_cases [of sl tg])
    case unknown
    define msg where "msg = ''Unknown done() tag '' @ apos @ tg @ apos"
    have s': "s' = sl\<lparr>errorMsg := msg\<rparr>"
      using unknown by (simp add: s'_def done1_unknown usageError_def msg_def)
    have "\<not> ordered s tg" using unknown by (simp add: ordered_def sl_def)
    then have o: "ordered_resolves s' = ordered_resolves s"
      by (simp add: s' sl_def ordered_resolves_def ordered_def [abs_def])
    have "handles_ok s'" using g by (simp add: good_def handles_ok_def s' sl_def)
    moreover have "dones_ok s'"
      using g by - (rule dones_ok_same [of s], simp_all add: good_def s' sl_def)
    moreover have "log_ok s'"
      using g o by - (rule log_ok_eq [of s], simp_all add: good_def s' sl_def)
    ultimately show ?thesis by (simp add: good_def)
  next
    case (resolved it)
    then have "mComplete s' = ASYNC_COMPLETE_ERROR"
      using mComplete_doError [of "''done() already resloved, can't resolve again''" tg True sl]
      by (simp add: s'_def done1_resolved)
    then show ?thesis using z' error_not_zero by simp
  next
    case (invalid it e)
    have "dones_ok sl"
      using g by - (rule dones_ok_same [of s], simp_all add: good_def sl_def)
    then have "\<exists>q. erase (schedItem it) (mSchedQueue sl) = Inr q"
      using invalid(1,2) by (rule pending_erase)
    then show ?thesis using invalid(3) by simp
  next
    case (unordered it q)
    have s': "s' = sl\<lparr>mSchedQueue := q,
        mDones := map_modify tg (\<lambda>d. d\<lparr>complete := ASYNC_COMPLETE_SUCCESS\<rparr>) (mDones sl)\<rparr>"
      using done1_unordered [OF unordered] by (simp add: s'_def)
    show ?thesis
      by (rule good_resolve [OF g, of tg it q])
        (use unordered in \<open>simp_all add: s' sl_def\<close>)
  next
    case (in_order it q)
    have s': "s' = sl\<lparr>mSchedQueue := q, mLastOrderedDoneNo := mLastOrderedDoneNo sl + 1,
        mDones := map_modify tg (\<lambda>d. d\<lparr>complete := ASYNC_COMPLETE_SUCCESS\<rparr>) (mDones sl)\<rparr>"
      using done1_in_order [OF in_order] by (simp add: s'_def)
    show ?thesis
      by (rule good_resolve [OF g, of tg it q])
        (use in_order in \<open>simp_all add: s' sl_def\<close>)
  next
    case (out_of_order it q)
    then have "mComplete s' = ASYNC_COMPLETE_ERROR"
      by (simp add: s'_def done1_out_of_order mComplete_doError)
    then show ?thesis using z' error_not_zero by simp
  qed
  then show ?thesis by (simp add: s'_def sl_def)
qed

lemma inv_prim:
  assumes p: "\<forall>body handler. c \<noteq> CallTry body handler" and i: "inv s"
  shows "inv (snd (execCall c s))"
proof -
  define s' where "s' = snd (execCall c s)"
  have adv: "advances (mComplete s) (mComplete s')"
    using advances_execCall [of s c] by (simp add: s'_def)
  have ns: "mComplete s' \<noteq> ASYNC_COMPLETE_SUCCESS"
    using advances_not_success [OF adv] i by (simp add: inv_def)
  have "good s'" if z: "mComplete s' = 0"
  proof -
    have z0: "mComplete s = 0" using advances_zero [OF adv z] .
    then have g: "good s" using i by (simp add: inv_def)
    show ?thesis
    proof (cases c)
      case (CallDone tg)
      then show ?thesis using good_done1 [OF g, of tg] z by (simp add: s'_def)
    next
      case (CallSched cs a p)
      then show ?thesis using good_schedCall [OF g, of "UserCall cs" a p] by (simp add: s'_def)
    next
      case (CallError msg)
      then have "mComplete s' = ASYNC_COMPLETE_ERROR"
        using mComplete_doError [of msg "''_default''" False s] by (simp add: error1_def s'_def)
      then show ?thesis using z error_not_zero by simp
    next
      case (CallErrorTag tg msg)
      show ?thesis
      proof (cases "tg = []")
        case True
        then have "s' = s\<lparr>errorMsg :=
            ''error() for a tagged done() item called, but the tag is empty''\<rparr>"
          using CallErrorTag by (simp add: error2_def usageError_def s'_def)
        then show ?thesis using good_same [OF g, of s'] by simp
      next
        case False
        then have "mComplete s' = ASYNC_COMPLETE_ERROR"
          using CallErrorTag mComplete_doError [of msg tg False s] by (simp add: error2_def s'_def)
        then show ?thesis using z error_not_zero by simp
      qed
    next
      case CallAbort
      then show ?thesis using z z0 by (auto simp: abort_def ASYNC_COMPLETE_ABORTED_def s'_def)
    next
      case (Elapse n)
      then have "s' = s\<lparr>clock := clock s + int n\<rparr>" by (simp add: s'_def)
      then show ?thesis using good_same [OF g, of s'] by simp
    next
      case (SetErrorMsg msg)
      then have "s' = s\<lparr>errorMsg := msg\<rparr>" by (simp add: s'_def)
      then show ?thesis using good_same [OF g, of s'] by simp
    next
      case (SetJitterPct pct)
      then have "s' = s\<lparr>jitterPct := pct\<rparr>" by (simp add: s'_def)
      then show ?thesis using good_same [OF g, of s'] by simp
    next
      case (CallTry body handler)
      then show ?thesis using p by simp
    qed
  qed
  then show ?thesis using ns by (simp add: inv_def s'_def)
qed

lemma inv_execCall: "inv s \<Longrightarrow> inv (snd (execCall c s))"
  by (rule exec_preserves(1) [where P = inv]) (rule inv_prim)

lemma inv_execCalls: "inv s \<Longrightarrow> inv (snd (execCalls cs s))"
  by (rule exec_preserves(2) [where P = inv]) (rule inv_prim)

lemma inv_makes_call: "makes_call cs s c sp \<Longrightarrow> inv s \<Longrightarrow> inv sp"
proof (induction rule: makes_call.induct)
  case (makes_first c cs s)
  then show ?case by simp
next
  case (makes_later c' s s1 cs c sp)
  have "inv s1" using inv_execCall [OF makes_later.prems, of c'] makes_later.hyps(1) by simp
  then show ?case by (rule makes_later.IH)
next
  case (makes_tried body s c sp handler cs)
  then show ?case by simp
next
  case (makes_caught body s m s1 handler c sp cs)
  have "inv s1" using inv_execCalls [OF makes_caught.prems, of body] makes_caught.hyps(1) by simp
  then show ?case by (rule makes_caught.IH)
qed

lemma dones_ok_pop:
  assumes dk: "dones_ok s" and q: "mSchedQueue s = (ts, h, c) # rest"
    and f: "mDones s' = mDones s" "mSchedQueue s' = rest"
    and c: "\<And>k d. map_of (mDones s) k = Some d \<Longrightarrow> complete d = 0 \<Longrightarrow> c \<noteq> DoneTimeout k"
  shows "dones_ok s'"
  unfolding dones_ok_def
proof (intro allI impI)
  fix k d assume kd: "map_of (mDones s') k = Some d"
  then have old: "map_of (mDones s) k = Some d" by (simp add: f)
  have 1: "complete d = 0 \<or> complete d = ASYNC_COMPLETE_SUCCESS"
    using dk old unfolding dones_ok_def by blast
  have 2: "\<exists>h ts. schedItem d = Some h \<and> (ts, h, DoneTimeout k) \<in> set (mSchedQueue s')"
    if p: "complete d = 0"
  proof -
    obtain h2 ts2 where h2: "schedItem d = Some h2"
      and e2: "(ts2, h2, DoneTimeout k) \<in> set (mSchedQueue s)"
      using dk old p unfolding dones_ok_def by blast
    have "(ts2, h2, DoneTimeout k) \<noteq> (ts, h, c)" using c [OF old p] by auto
    then have "(ts2, h2, DoneTimeout k) \<in> set rest" using e2 q by auto
    then show ?thesis using h2 by (auto simp: f)
  qed
  show "(complete d = 0 \<or> complete d = ASYNC_COMPLETE_SUCCESS) \<and>
        (complete d = 0 \<longrightarrow>
           (\<exists>h ts. schedItem d = Some h \<and> (ts, h, DoneTimeout k) \<in> set (mSchedQueue s')))"
    using 1 2 by blast
qed

lemma good_due_entry:
  assumes g: "good s" and q: "mSchedQueue s = (ts, h, c) # rest"
    and c: "\<And>k d. map_of (mDones s) k = Some d \<Longrightarrow> complete d = 0 \<Longrightarrow> c \<noteq> DoneTimeout k"
  shows "good (due_entry s)"
proof -
  have "handles_ok (due_entry s)"
    by (rule handles_ok_sub [of s _ "\<lambda>e. True"]) (use g in \<open>simp_all add: good_def due_entry_fields\<close>)
  moreover have "dones_ok (due_entry s)"
    by (rule dones_ok_pop [of s ts h c rest])
      (use g q c in \<open>simp_all add: good_def due_entry_fields\<close>)
  moreover have "log_ok (due_entry s)"
    by (rule log_ok_same [of s]) (use g in \<open>simp_all add: good_def due_entry_fields\<close>)
  ultimately show ?thesis by (simp add: good_def)
qed

lemma inv_run_iteration:
  assumes i: "inv s" and ne: "mSchedQueue s \<noteq> []" and z: "mComplete s = 0"
  shows "inv (snd (run_iteration s))"
proof -
  obtain ts h c rest where q: "mSchedQueue s = (ts, h, c) # rest"
    using ne by (cases "mSchedQueue s") auto
  have g: "good s" using i z by (simp add: inv_def)
  define d where "d = due_entry s"
  define s3 where "s3 = snd (run_iteration s)"
  have dz: "mComplete d = 0" using z by (simp add: d_def due_entry_fields)
  have ex: "s3 = snd (execItem c d)" using q by (simp add: s3_def run_iteration_due d_def)
  have err: "inv s3" if "mComplete s3 = ASYNC_COMPLETE_ERROR"
    using that by (simp add: inv_def ASYNC_COMPLETE_ERROR_def ASYNC_COMPLETE_SUCCESS_def)
  have "inv s3"
  proof (cases c)
    case (UserCall cs)
    have "good d" unfolding d_def by (rule good_due_entry [OF g q]) (simp add: UserCall)
    then have "inv d" using dz by (simp add: inv_def ASYNC_COMPLETE_SUCCESS_def)
    then show ?thesis using inv_execCalls [of d cs] ex UserCall by simp
  next
    case (DoneTimeout tg)
    have dt: "s3 = snd (doneTimeout tg d)" using ex DoneTimeout by simp
    show ?thesis
    proof (cases "map_of (mDones s) tg")
      case None
      then have n: "map_of (mDones d) tg = None" by (simp add: d_def due_entry_fields)
      show ?thesis using err dt n by (simp add: doneTimeout_def mComplete_doError)
    next
      case (Some it)
      then have m: "map_of (mDones d) tg = Some it" by (simp add: d_def due_entry_fields)
      show ?thesis
      proof (cases "complete it = 0")
        case True
        then have "s3 = snd (doError ''Timeout'' tg True d)"
          using dt m by (simp add: doneTimeout_def)
        then show ?thesis using err mComplete_doError [of "''Timeout''" tg True d] by simp
      next
        case False
        then have s3: "s3 = d" using dt m by (simp add: doneTimeout_def)
        have "c \<noteq> DoneTimeout k" if "map_of (mDones s) k = Some d0" "complete d0 = 0" for k d0
          using that Some False DoneTimeout by auto
        then have "good d" unfolding d_def by (rule good_due_entry [OF g q])
        then show ?thesis using dz by (simp add: inv_def s3 ASYNC_COMPLETE_SUCCESS_def)
      qed
    qed
  qed
  then show ?thesis by (simp add: s3_def)
qed

lemma inv_iterates: "iterates s s' \<Longrightarrow> inv s \<Longrightarrow> inv s'"
proof (induction rule: iterates.induct)
  case (iterates_start s)
  then show ?case by simp
next
  case (iterates_next s s1 s2)
  have "inv s1" using iterates_next.IH iterates_next.prems by simp
  then show ?case
    using inv_run_iteration [of s1] iterates_next.hyps(2,3,4) by simp
qed

lemma inv_due_entry:
  assumes "inv s" and "mSchedQueue s \<noteq> []"
    and "snd (snd (hd (mSchedQueue s))) = UserCall cs"
  shows "inv (due_entry s)"
proof (cases "mComplete s = 0")
  case True
  obtain ts h c rest where q: "mSchedQueue s = (ts, h, c) # rest"
    using assms(2) by (cases "mSchedQueue s") auto
  have g: "good s" using assms(1) True by (simp add: inv_def)
  have "good (due_entry s)"
    by (rule good_due_entry [OF g q]) (use assms(3) q in simp)
  then show ?thesis using True by (simp add: inv_def due_entry_fields ASYNC_COMPLETE_SUCCESS_def)
next
  case False
  then show ?thesis using assms(1) by (simp add: inv_def due_entry_fields)
qed

lemma inv_run_loop:
  "inv s \<Longrightarrow> run_loop s = (None, s') \<Longrightarrow>
   inv s' \<and> (mComplete s' = 0 \<and> errorMsg s' = [] \<longrightarrow> mSchedQueue s' = [])"
proof (induction s rule: run_loop_induct)
  case (stop s)
  then show ?case by (auto simp: run_loop_stop)
next
  case (iter s)
  obtain e s3 where r: "run_iteration s = (e, s3)" by (cases "run_iteration s")
  show ?case
  proof (cases e)
    case (Some x)
    then show ?thesis using iter.prems(2) iter.hyps r by (simp add: run_loop_unfold)
  next
    case None
    have i3: "inv s3" using inv_run_iteration [OF iter.prems(1) iter.hyps] r by simp
    show ?thesis
    proof (cases "errorMsg s3 = []")
      case True
      then have "run_loop s3 = (None, s')"
        using iter.prems(2) iter.hyps r None by (simp add: run_loop_unfold)
      then show ?thesis using iter.IH [of s3] r None True i3 by simp
    next
      case False
      then have s': "s' = s3" using iter.prems(2) iter.hyps r None by (simp add: run_loop_unfold)
      then show ?thesis using i3 False by simp
    qed
  qed
qed

lemma addDoneToLoop_none: "map_of (mDones s) k = None \<Longrightarrow> addDoneToLoop k s = s"
  by (simp add: addDoneToLoop_def)

lemma fst_schedHandler: "fst (schedHandler c ts s) = nextIter s"
  by (simp add: schedHandler_def Let_def)

lemma addDoneToLoop_some:
  assumes "map_of (mDones s) k = Some item"
  shows "mDones (addDoneToLoop k s) =
      map_modify k (\<lambda>d. d\<lparr>schedItem := Some (nextIter s)\<rparr>) (mDones s)"
    and "mSchedQueue (addDoneToLoop k s) =
      emplace (deadline item) (nextIter s) (DoneTimeout (tag item)) (mSchedQueue s)"
    and "nextIter (addDoneToLoop k s) = Suc (nextIter s)"
    and "errorMsg (addDoneToLoop k s) = errorMsg s"
    and "mComplete (addDoneToLoop k s) = mComplete s"
    and "mLastOrderedDoneNo (addDoneToLoop k s) = mLastOrderedDoneNo s"
    and "doneCalls (addDoneToLoop k s) = doneCalls s"
  using assms
  by (simp_all add: addDoneToLoop_def Let_def fst_schedHandler schedHandler_fields
      mSchedQueue_schedHandler)

lemma arm_step:
  assumes ok: "registered_ok s1"
    and s': "s' = addDoneToLoop k
       (s1\<lparr>mDones := map_modify k (\<lambda>d. d\<lparr>deadline := deadline d + now\<rparr>) (mDones s1)\<rparr>)"
  shows "registered_ok s' \<and> armed s' k \<and> (\<forall>k'. armed s1 k' \<longrightarrow> armed s' k') \<and>
    map fst (mDones s') = map fst (mDones s1) \<and> order_of s' = order_of s1"
proof -
  define s2 where
    "s2 = s1\<lparr>mDones := map_modify k (\<lambda>d. d\<lparr>deadline := deadline d + now\<rparr>) (mDones s1)\<rparr>"
  have s'2: "s' = addDoneToLoop k s2" by (simp add: s' s2_def)
  have hk: "handles_ok s1" and mk: "\<And>k d. map_of (mDones s1) k = Some d \<Longrightarrow> complete d = 0 \<and> tag d = k"
    and rest: "errorMsg s1 = []" "mComplete s1 = 0" "mLastOrderedDoneNo s1 = 0" "doneCalls s1 = []"
    using ok by (auto simp: registered_ok_def)
  have m2: "map_of (mDones s2) k' =
      (if k' = k then map_option (\<lambda>d. d\<lparr>deadline := deadline d + now\<rparr>) (map_of (mDones s1) k')
       else map_of (mDones s1) k')" for k'
    by (simp add: s2_def map_of_map_modify)
  have f2: "mSchedQueue s2 = mSchedQueue s1" "nextIter s2 = nextIter s1" "errorMsg s2 = []"
    "mComplete s2 = 0" "mLastOrderedDoneNo s2 = 0" "doneCalls s2 = []"
    "map fst (mDones s2) = map fst (mDones s1)"
    using rest by (simp_all add: s2_def map_fst_map_modify)
  have o2: "order_of s2 = order_of s1"
    by (rule order_of_modify [where k = k and f = "\<lambda>d. d\<lparr>deadline := deadline d + now\<rparr>"])
      (simp_all add: s2_def)
  show ?thesis
  proof (cases "map_of (mDones s1) k")
    case None
    then have n2: "map_of (mDones s2) k = None" using m2 [of k] by simp
    have e: "s' = s2" using addDoneToLoop_none [OF n2] s'2 by simp
    have same: "map_of (mDones s2) k' = map_of (mDones s1) k'" for k'
      using m2 [of k'] None by simp
    have "handles_ok s2" using hk f2 by (simp add: handles_ok_def)
    then have 1: "registered_ok s2" using mk f2 same by (simp add: registered_ok_def)
    have 2: "armed s2 k" using n2 by (simp add: armed_def)
    have 3: "armed s1 k' \<longrightarrow> armed s2 k'" for k' by (simp add: armed_def same f2)
    show ?thesis using 1 2 3 f2(7) o2 by (simp add: e)
  next
    case (Some d0)
    define item where "item = d0\<lparr>deadline := deadline d0 + now\<rparr>"
    have i2: "map_of (mDones s2) k = Some item" using m2 [of k] Some by (simp add: item_def)
    have ti: "tag item = k" "complete item = 0" using mk [OF Some] by (simp_all add: item_def)
    note a = addDoneToLoop_some [OF i2]
    have ms: "map_of (mDones s') k' =
        (if k' = k then Some (item\<lparr>schedItem := Some (nextIter s1)\<rparr>) else map_of (mDones s1) k')" for k'
      using i2 m2 [of k'] by (simp add: s'2 a(1) map_of_map_modify f2)
    have qs: "mSchedQueue s' = emplace (deadline item) (nextIter s1) (DoneTimeout k) (mSchedQueue s1)"
      by (simp add: s'2 a(2) ti f2)
    have ns: "nextIter s' = Suc (nextIter s1)" by (simp add: s'2 a(3) f2)
    have hs: "handles_ok s'" by (rule handles_ok_emplace [OF hk qs ns])
    have "complete d = 0 \<and> tag d = k'" if "map_of (mDones s') k' = Some d" for k' d
      using that ms [of k'] mk [of k' d] ti by (auto split: if_splits)
    then have 1: "registered_ok s'"
      using hs f2 by (simp add: registered_ok_def s'2 a(4-7))
    have 2: "armed s' k" by (auto simp: armed_def ms qs set_emplace)
    have 3: "armed s1 k' \<longrightarrow> armed s' k'" for k'
    proof (cases "k' = k")
      case True
      then show ?thesis using 2 by simp
    next
      case False
      then show ?thesis by (simp add: armed_def ms qs set_emplace)
    qed
    have 4: "map fst (mDones s') = map fst (mDones s1)"
      by (simp add: s'2 a(1) map_fst_map_modify f2)
    have 5: "order_of s' = order_of s2"
      by (rule order_of_modify [where k = k and f = "\<lambda>d. d\<lparr>schedItem := Some (nextIter s2)\<rparr>"])
        (simp_all add: s'2 a(1))
    show ?thesis using 1 2 3 4 5 o2 by simp
  qed
qed

lemma arm_fold:
  assumes "registered_ok s1"
  shows "registered_ok (fold (\<lambda>k s. addDoneToLoop k
            (s\<lparr>mDones := map_modify k (\<lambda>d. d\<lparr>deadline := deadline d + now\<rparr>) (mDones s)\<rparr>)) ks s1) \<and>
    (\<forall>k \<in> set ks. armed (fold (\<lambda>k s. addDoneToLoop k
            (s\<lparr>mDones := map_modify k (\<lambda>d. d\<lparr>deadline := deadline d + now\<rparr>) (mDones s)\<rparr>)) ks s1) k) \<and>
    (\<forall>k'. armed s1 k' \<longrightarrow> armed (fold (\<lambda>k s. addDoneToLoop k
            (s\<lparr>mDones := map_modify k (\<lambda>d. d\<lparr>deadline := deadline d + now\<rparr>) (mDones s)\<rparr>)) ks s1) k') \<and>
    map fst (mDones (fold (\<lambda>k s. addDoneToLoop k
            (s\<lparr>mDones := map_modify k (\<lambda>d. d\<lparr>deadline := deadline d + now\<rparr>) (mDones s)\<rparr>)) ks s1)) =
      map fst (mDones s1) \<and>
    order_of (fold (\<lambda>k s. addDoneToLoop k
            (s\<lparr>mDones := map_modify k (\<lambda>d. d\<lparr>deadline := deadline d + now\<rparr>) (mDones s)\<rparr>)) ks s1) =
      order_of s1"
  using assms
proof (induction ks arbitrary: s1)
  case Nil
  then show ?case by simp
next
  case (Cons k ks)
  define s2 where "s2 = addDoneToLoop k
       (s1\<lparr>mDones := map_modify k (\<lambda>d. d\<lparr>deadline := deadline d + now\<rparr>) (mDones s1)\<rparr>)"
  note st = arm_step [OF Cons.prems s2_def]
  note ih = Cons.IH [of s2]
  show ?case
    unfolding fold_Cons comp_apply s2_def [symmetric]
    using st ih by auto
qed

lemma unused_registered_ok: "unused s \<Longrightarrow> registered_ok s"
  by (auto simp: unused_def registered_ok_def handles_ok_def list_all_iff dest!: map_of_SomeD)

lemma good_addAllDonesToLoop:
  assumes "registered_ok s"
  shows "good (addAllDonesToLoop s) \<and> mComplete (addAllDonesToLoop s) = 0 \<and>
    order_of (addAllDonesToLoop s) = order_of s"
proof -
  define A where "A = addAllDonesToLoop s"
  have A: "A = fold (\<lambda>k s1. addDoneToLoop k
            (s1\<lparr>mDones := map_modify k (\<lambda>d. d\<lparr>deadline := deadline d + getTimeMs s\<rparr>) (mDones s1)\<rparr>))
            (map fst (mDones s)) s"
    by (simp add: A_def addAllDonesToLoop_def Let_def)
  note f = arm_fold [OF assms, of "getTimeMs s" "map fst (mDones s)", folded A]
  have ok: "registered_ok A" and ar: "\<And>k. k \<in> set (map fst (mDones s)) \<Longrightarrow> armed A k"
    and keys: "map fst (mDones A) = map fst (mDones s)" and oo: "order_of A = order_of s"
    using f by blast+
  have hk: "handles_ok A" and mk: "\<And>k d. map_of (mDones A) k = Some d \<Longrightarrow> complete d = 0"
    and rest: "errorMsg A = []" "mComplete A = 0" "mLastOrderedDoneNo A = 0" "doneCalls A = []"
    using ok by (auto simp: registered_ok_def)
  have dk: "dones_ok A"
    unfolding dones_ok_def
  proof (intro allI impI)
    fix k d assume kd: "map_of (mDones A) k = Some d"
    have "k \<in> set (map fst (mDones A))" using map_of_SomeD [OF kd] by force
    then have "armed A k" using ar keys by simp
    then show "(complete d = 0 \<or> complete d = ASYNC_COMPLETE_SUCCESS) \<and>
        (complete d = 0 \<longrightarrow>
           (\<exists>h ts. schedItem d = Some h \<and> (ts, h, DoneTimeout k) \<in> set (mSchedQueue A)))"
      using mk [OF kd] kd by (simp add: armed_def)
  qed
  have lk: "log_ok A"
    using rest mk by (auto simp: log_ok_def ordered_resolves_def ASYNC_COMPLETE_SUCCESS_def)
  show ?thesis
    using hk dk lk rest oo by (simp add: good_def A_def)
qed

lemma unused_initColors: "unused (initColors tty s) = unused s"
  by (simp add: unused_def initColors_def)

lemma order_of_initColors: "order_of (initColors tty s) = order_of s"
  by (rule order_of_same) (simp add: initColors_def)

lemma ordered_resolves_mComplete:
  "ordered_resolves (s\<lparr>mComplete := c\<rparr>) = ordered_resolves s"
  by (simp add: ordered_resolves_def ordered_def [abs_def])

lemma run_success:
  assumes u: "unused s0" and r: "run tty s0 = (None, s')"
    and c: "mComplete s' = ASYNC_COMPLETE_SUCCESS" and m: "errorMsg s' = []"
  obtains s1 where "good s1" and "mSchedQueue s1 = []" and "mComplete s1 = 0"
    and "order_of s1 = order_of s0" and "ordered_resolves s' = ordered_resolves s1"
proof -
  define A where "A = addAllDonesToLoop (initColors tty s0)"
  have ne: "mSchedQueue s0 \<noteq> []"
    using r by (auto simp: run_def Let_def mSchedQueue_initColors)
  obtain e s1 where l: "run_loop A = (e, s1)" by (cases "run_loop A")
  have e: "e = None" and s': "s' = (if mComplete s1 = 0 then s1\<lparr>mComplete := ASYNC_COMPLETE_SUCCESS\<rparr> else s1)"
    using r ne l by (cases e; simp add: run_def Let_def mSchedQueue_initColors A_def)+
  have ro: "registered_ok (initColors tty s0)"
    using u by (simp add: unused_registered_ok unused_initColors)
  note a = good_addAllDonesToLoop [OF ro, folded A_def]
  have "inv A" using a by (simp add: inv_def ASYNC_COMPLETE_SUCCESS_def)
  then have i1: "inv s1" and q1: "mComplete s1 = 0 \<and> errorMsg s1 = [] \<longrightarrow> mSchedQueue s1 = []"
    using inv_run_loop [of A s1] l e by simp_all
  have z: "mComplete s1 = 0"
  proof (rule ccontr)
    assume "mComplete s1 \<noteq> 0"
    then have "s' = s1" using s' by simp
    then show False using c i1 by (simp add: inv_def)
  qed
  have o: "order_of s1 = order_of s0"
    using order_of_run_loop [of A] l a by (simp add: order_of_initColors)
  have m1: "errorMsg s1 = []" using m s' z by simp
  show ?thesis
    by (rule that [of s1])
      (use i1 q1 z m1 o s' in \<open>simp_all add: inv_def ordered_resolves_mComplete\<close>)
qed

lemma success_position:
  assumes u: "unused s0" and r: "run tty s0 = (None, s')"
    and c: "mComplete s' = ASYNC_COMPLETE_SUCCESS" and m: "errorMsg s' = []"
    and it: "map_of (mDones s0) tg = Some it" and k: "0 < order it"
  shows "nat (order it) \<le> length (ordered_resolves s') \<and>
      (\<forall>j < length (ordered_resolves s'). (ordered_resolves s' ! j = tg) = (int j + 1 = order it))"
proof -
  obtain s1 where g: "good s1" and q: "mSchedQueue s1 = []" and z: "mComplete s1 = 0"
    and o: "order_of s1 = order_of s0" and ol: "ordered_resolves s' = ordered_resolves s1"
    using run_success [OF u r c m] by blast
  define OL where "OL = ordered_resolves s1"
  have dk: "dones_ok s1" and lk: "log_ok s1" using g by (simp_all add: good_def)
  have "order_of s1 tg = Some (order it)" using o it by (simp add: order_of_def)
  then obtain d1 where d1: "map_of (mDones s1) tg = Some d1" and o1: "order d1 = order it"
    by (auto simp: order_of_def)
  have "complete d1 \<noteq> 0" using dk d1 q unfolding dones_ok_def by fastforce
  then have c1: "complete d1 = ASYNC_COMPLETE_SUCCESS" using dk d1 unfolding dones_ok_def by blast
  have "tg \<in> set OL" using lk d1 o1 k c1 unfolding log_ok_def OL_def by fastforce
  then obtain i where i: "i < length OL" "OL ! i = tg" by (auto simp: in_set_conv_nth)
  have nth: "\<exists>d. map_of (mDones s1) (OL ! j) = Some d \<and> order d = int j + 1" if "j < length OL" for j
    using lk that unfolding log_ok_def OL_def by blast
  have oi: "int i + 1 = order it" using nth [OF i(1)] i(2) d1 o1 by auto
  have "(OL ! j = tg) = (int j + 1 = order it)" if j: "j < length OL" for j
  proof
    assume "OL ! j = tg"
    then show "int j + 1 = order it" using nth [OF j] d1 o1 by auto
  next
    assume "int j + 1 = order it"
    then have "j = i" using oi by simp
    then show "OL ! j = tg" using i(2) by simp
  qed
  moreover have "nat (order it) \<le> length OL" using oi i(1) by auto
  ultimately show ?thesis by (simp add: ol OL_def)
qed

lemma in_callback_erase:
  assumes u: "unused s0" and i: "iterates (addAllDonesToLoop (initColors tty s0)) s1"
    and c: "in_callback s1 c sp" and z: "mComplete sp = 0"
    and it: "map_of (mDones sp) tg = Some it" and p: "complete it = 0"
  shows "\<exists>q. erase (schedItem it) (mSchedQueue sp) = Inr q"
proof -
  define A where "A = addAllDonesToLoop (initColors tty s0)"
  have ro: "registered_ok (initColors tty s0)"
    using u by (simp add: unused_registered_ok unused_initColors)
  note a = good_addAllDonesToLoop [OF ro, folded A_def]
  have "inv A" using a by (simp add: inv_def ASYNC_COMPLETE_SUCCESS_def)
  then have i1: "inv s1" using inv_iterates [of A s1] i by (simp add: A_def)
  obtain cs where q: "mSchedQueue s1 \<noteq> []"
    and uc: "snd (snd (hd (mSchedQueue s1))) = UserCall cs"
    and mk: "makes_call cs (due_entry s1) c sp"
    using c by (rule in_callback_cases)
  have "inv (due_entry s1)" using i1 q uc by (rule inv_due_entry)
  then have "inv sp" using inv_makes_call [OF mk] by simp
  then have "dones_ok sp" using z by (simp add: inv_def good_def)
  then show ?thesis using it p by (rule pending_erase)
qed

section \<open>Option names of a done() item\<close>

text \<open>
  C6, as the claim states it, fails: besides \<open>timeout\<close> and \<open>order\<close>, \<open>setVal\<close> accepts the
  name \<open>tmo\<close>, an alias of \<open>timeout\<close>, and sets the deadline without any error.
\<close>

theorem setVal_tmo_counterexample:
  "''tmo'' \<noteq> ''timeout'' \<and> ''tmo'' \<noteq> ''order'' \<and>
   setVal ''tmo'' 5 (DoneItem1 ''x'') = Inr ((DoneItem1 ''x'')\<lparr>deadline := 5\<rparr>)"
  by (simp add: setVal_def)

text \<open>
  C6, amended: \<open>setVal\<close> recognises exactly the names \<open>timeout\<close>, \<open>tmo\<close> and \<open>order\<close>. The first
  two set the deadline, the third the order; every other name throws a runtime error whose
  message contains the name and the tag of the item, and nothing is set.
\<close>

theorem setVal_option_names:
  "(name \<in> {''timeout'', ''tmo''} \<longrightarrow> setVal name val item = Inr (item\<lparr>deadline := val\<rparr>)) \<and>
   (name = ''order'' \<longrightarrow> setVal name val item = Inr (item\<lparr>order := val\<rparr>)) \<and>
   (name \<notin> {''timeout'', ''tmo'', ''order''} \<longrightarrow>
      (\<exists>m. setVal name val item = Inl (RuntimeError m) \<and> cites m name \<and> cites m (tag item)))"
proof -
  have n: "cites (''Unknown property '' @ apos @ name @ apos @ apos @
                  '' of done() with tag '' @ apos @ tag item @ apos) name"
    using cites_append [of "''Unknown property '' @ apos" name] by simp
  have t: "cites (''Unknown property '' @ apos @ name @ apos @ apos @
                  '' of done() with tag '' @ apos @ tag item @ apos) (tag item)"
    using cites_append [of "''Unknown property '' @ apos @ name @ apos @ apos @
                  '' of done() with tag '' @ apos" "tag item" apos] by simp
  show ?thesis using n t by (auto simp: setVal_def)
qed

theorem setVal_option_names_witness:
  "setVal ''tmo'' 7 (DoneItem1 ''a'') = Inr ((DoneItem1 ''a'')\<lparr>deadline := 7\<rparr>) \<and>
   setVal ''order'' 2 (DoneItem1 ''a'') = Inr ((DoneItem1 ''a'')\<lparr>order := 2\<rparr>) \<and>
   (\<exists>m. setVal ''delay'' 7 (DoneItem1 ''a'') = Inl (RuntimeError m) \<and> cites m ''delay'' \<and>
        cites m (tag (DoneItem1 ''a'')))"
  using setVal_option_names [of "''tmo''" 7 "DoneItem1 ''a''"]
    setVal_option_names [of "''order''" 2 "DoneItem1 ''a''"]
    setVal_option_names [of "''delay''" 7 "DoneItem1 ''a''"]
  by simp

section \<open>Names of the completion codes\<close>

text \<open>
  C9: the array of names has three entries, \<open>completeCodeToString\<close> throws exactly for the
  codes below 0 and above 3, and for \<open>ASYNC_COMPLETE_ABORTED\<close>, which is 3, it neither
  throws nor returns a name: it reads the array one element past its end.
\<close>

theorem completeCodeToString_aborted:
  "length strings = 3 \<and>
   (\<forall>code. (\<exists>m. completeCodeToString code = Inl (RuntimeError m)) = (code < 0 \<or> code > 3)) \<and>
   completeCodeToString ASYNC_COMPLETE_ABORTED = Inl (Undefined OutOfBoundsRead)"
  by (auto simp: completeCodeToString_def strings_def ASYNC_COMPLETE_ABORTED_def)

section \<open>Jitter of a small delay\<close>

text \<open>
  C10: when the jitter percentage in effect is positive and the product of the delay's
  magnitude and the percentage, divided by 100, is 0, \<open>schedCall\<close> computes
  \<open>rand() % 0\<close>, on the branch of a negative delay and on the other one alike: the only
  guard is that the percentage is not 0.
\<close>

theorem schedCall_modulo_by_zero:
  assumes pos: "0 < (if aJitterPct < 0 then jitterPct s else aJitterPct)"
    and small: "c_div (\<bar>after\<bar> * (if aJitterPct < 0 then jitterPct s else aJitterPct)) 100 = 0"
  shows "fst (schedCall func after aJitterPct s) = Some (Undefined ModuloByZero)"
proof -
  define p where "p = (if aJitterPct < 0 then jitterPct s else aJitterPct)"
  have p: "0 < p" and z: "c_div (\<bar>after\<bar> * p) 100 = 0" using pos small by (simp_all add: p_def)
  have b: "\<bar>\<bar>after\<bar> * p\<bar> < 100" using c_div_100_zero [OF z] .
  then have b': "\<bar>after\<bar> * p < 100" by simp
  have "\<bar>after\<bar> * 1 \<le> \<bar>after\<bar> * p" using p by (intro mult_left_mono) auto
  then have a: "\<bar>after\<bar> < 100" using b' by simp
  have pn: "p \<noteq> 0" using p by simp
  show ?thesis
  proof (cases "after < 0")
    case True
    have ab: "\<bar>after\<bar> = - after" using True by simp
    have f: "fits_int (- after)" using a ab by (intro fits_int_small) simp
    have j: "jitter (- after) p t = (Inl (Undefined ModuloByZero), t)" for t
      using b z unfolding ab by (rule jitter_zero)
    show ?thesis
      unfolding schedCall_def Let_def p_def [symmetric] using True f pn by (simp add: j)
  next
    case False
    have ab: "\<bar>after\<bar> = after" using False by simp
    have j: "jitter after p t = (Inl (Undefined ModuloByZero), t)" for t
      using b z unfolding ab by (rule jitter_zero)
    show ?thesis
      unfolding schedCall_def Let_def p_def [symmetric] using False pn by (simp add: j)
  qed
qed

theorem schedCall_modulo_by_zero_witness:
  "fst (schedCall (UserCall []) 1 50 (members_init 1000 (\<lambda>n. 7) 2000)) =
     Some (Undefined ModuloByZero) \<and>
   fst (schedCall (UserCall []) (- 1) (- 1) (members_init 1000 (\<lambda>n. 7) 2000)) =
     Some (Undefined ModuloByZero)"
proof -
  have a: "fst (schedCall (UserCall []) 1 50 (members_init 1000 (\<lambda>n. 7) 2000)) =
     Some (Undefined ModuloByZero)"
    by (rule schedCall_modulo_by_zero) (simp_all add: c_div_def)
  have b: "fst (schedCall (UserCall []) (- 1) (- 1) (members_init 1000 (\<lambda>n. 7) 2000)) =
     Some (Undefined ModuloByZero)"
    by (rule schedCall_modulo_by_zero) (simp_all add: jitterPct_members_init c_div_def)
  show ?thesis using a b by simp
qed

section \<open>An error after an abort\<close>




section \<open>abort\<close>



section \<open>Nothing to run\<close>

text \<open>
  C2, as the claim states it, fails: a loop with a registered done() item and no scheduled
  call does raise the error. \<open>run\<close> tests the queue before \<open>addAllDonesToLoop\<close> schedules the
  timeouts, which would have put one entry in the queue.
\<close>

theorem run_markers_only_counterexample:
  "map fst (mDones fresh_loop) = [''_default''] \<and>
   mSchedQueue fresh_loop = [] \<and>
   length (mSchedQueue (addAllDonesToLoop fresh_loop)) = 1 \<and>
   fst (run False fresh_loop) =
     Some (RuntimeError ''Nothing to run: not even a single function call has been scheduled'')"
  by code_simp

text \<open>
  C2, amended: \<open>run\<close> throws the runtime error "Nothing to run" exactly when the queue of
  scheduled calls is empty at the moment \<open>run\<close> is called. The done() items registered at
  construction do not count, since their timeouts are scheduled only after this test.
\<close>

theorem run_nothing_to_run:
  "(fst (run tty s) =
      Some (RuntimeError ''Nothing to run: not even a single function call has been scheduled'')) =
   (mSchedQueue s = [])"
proof (cases "mSchedQueue s = []")
  case True
  then show ?thesis by (simp add: run_def Let_def mSchedQueue_initColors)
next
  case False
  obtain e s1 where r: "run_loop (addAllDonesToLoop (initColors tty s)) = (e, s1)"
    by (cases "run_loop (addAllDonesToLoop (initColors tty s))")
  have ok: "thrown_ok e" using thrown_ok_run_loop [of "addAllDonesToLoop (initColors tty s)"] r by simp
  have "fst (run tty s) = e"
    using False r by (cases e) (simp_all add: run_def Let_def mSchedQueue_initColors)
  moreover have "e \<noteq> Some (RuntimeError ''Nothing to run: not even a single function call has been scheduled'')"
    using ok by auto
  ultimately show ?thesis using False by simp
qed

section \<open>Chained scheduling\<close>

text \<open>
  C4: with the jitter percentage in effect 0, a call of \<open>schedCall\<close> with delay \<open>- m1\<close>
  schedules its entry at \<open>start + m1\<close>, where \<open>start\<close> is the cursor \<open>mLastOrderTs\<close>, or the
  current time when the cursor is still 0, and leaves the cursor there. A later call with
  delay \<open>- m2\<close>, in any state \<open>s'\<close> that has this cursor, whatever its clock and its queue
  are, schedules its entry at \<open>start + m1 + m2\<close> and leaves the cursor there. The wall clock
  is positive and the cursor is not negative.
\<close>

theorem chained_schedCall_timestamps:
  assumes "0 < m1" and "m1 \<le> INT_MAX" and "0 < m2" and "m2 \<le> INT_MAX"
    and "(if j1 < 0 then jitterPct s else j1) = 0"
    and "(if j2 < 0 then jitterPct s' else j2) = 0"
    and "0 < clock s" and "0 \<le> mLastOrderTs s"
    and "mLastOrderTs s' = mLastOrderTs (snd (schedCall f1 (- m1) j1 s))"
    and "start = (if mLastOrderTs s = 0 then clock s else mLastOrderTs s)"
  shows "fst (schedCall f1 (- m1) j1 s) = None \<and>
    mSchedQueue (snd (schedCall f1 (- m1) j1 s)) =
      emplace (start + m1) (nextIter s) f1 (mSchedQueue s) \<and>
    mLastOrderTs (snd (schedCall f1 (- m1) j1 s)) = start + m1 \<and>
    fst (schedCall f2 (- m2) j2 s') = None \<and>
    mSchedQueue (snd (schedCall f2 (- m2) j2 s')) =
      emplace (start + m1 + m2) (nextIter s') f2 (mSchedQueue s') \<and>
    mLastOrderTs (snd (schedCall f2 (- m2) j2 s')) = start + m1 + m2"
proof -
  have c1: "schedCall f1 (- m1) j1 s =
     (None, snd (schedHandler f1 (start + m1) (s\<lparr>mLastOrderTs := start + m1\<rparr>)))"
    using schedCall_chained [OF assms(1,2,5), of f1] assms(10) by simp
  have l1: "mLastOrderTs (snd (schedCall f1 (- m1) j1 s)) = start + m1"
    by (simp add: c1 mLastOrderTs_schedHandler)
  have pos: "0 < start" using assms(7,8,10) by (simp split: if_splits)
  have l': "mLastOrderTs s' = start + m1" using assms(9) l1 by simp
  then have nz: "mLastOrderTs s' \<noteq> 0" using pos assms(1) by simp
  have c2: "schedCall f2 (- m2) j2 s' =
     (None, snd (schedHandler f2 (start + m1 + m2) (s'\<lparr>mLastOrderTs := start + m1 + m2\<rparr>)))"
    using schedCall_chained [OF assms(3,4,6), of f2] nz l' by simp
  show ?thesis
    by (simp add: c1 c2 mLastOrderTs_schedHandler mSchedQueue_schedHandler)
qed

theorem chained_schedCall_timestamps_witness:
  "mSchedQueue (snd (schedCall (UserCall [CallAbort]) (- 30) 0
     ((snd (schedCall (UserCall []) (- 50) 0 fresh_loop))\<lparr>clock := 5000\<rparr>))) =
   [(1050, 0, UserCall []), (1080, 1, UserCall [CallAbort])] \<and>
   mLastOrderTs (snd (schedCall (UserCall [CallAbort]) (- 30) 0
     ((snd (schedCall (UserCall []) (- 50) 0 fresh_loop))\<lparr>clock := 5000\<rparr>))) = 1080"
proof -
  define s1 where "s1 = snd (schedCall (UserCall []) (- 50) 0 fresh_loop)"
  have h: "(50::int) \<le> INT_MAX" "(30::int) \<le> INT_MAX" by (simp_all add: INT_MAX_def)
  have c: "0 < clock fresh_loop" "0 \<le> mLastOrderTs fresh_loop" by code_simp+
  have st: "(1000::int) = (if mLastOrderTs fresh_loop = 0 then clock fresh_loop else mLastOrderTs fresh_loop)"
    by code_simp
  have n: "nextIter fresh_loop = 0" "mSchedQueue fresh_loop = []" by code_simp+
  have l: "mLastOrderTs (s1\<lparr>clock := 5000\<rparr>) = mLastOrderTs (snd (schedCall (UserCall []) (- 50) 0 fresh_loop))"
    by (simp add: s1_def)
  note t = chained_schedCall_timestamps [of 50 30 0 fresh_loop 0 "s1\<lparr>clock := 5000\<rparr>"
      "UserCall []" 1000 "UserCall [CallAbort]", OF _ h(1) _ h(2) _ _ c l st]
  have q1: "mSchedQueue s1 = [(1050, 0, UserCall [])]" using t n by (simp add: s1_def)
  have n1: "nextIter s1 = 1" unfolding s1_def by code_simp
  show ?thesis using t q1 n1 unfolding s1_def [symmetric] by simp
qed

section \<open>The timeout of a done() item\<close>

text \<open>
  C5: the loop of \<open>run\<close> comes to an entry that is the timeout of the done() item \<open>tg\<close>.
  If the item is still pending (\<open>complete\<close> is 0), \<open>run\<close> returns without an exception in
  the state \<open>ASYNC_COMPLETE_ERROR\<close>, with a message that contains "Timeout" and with \<open>tg\<close> as
  the error tag. If the item is resolved, the entry returns without an exception and leaves
  the overall state, the message, the error tag and the done() items as they were; only
  the entry itself has left the queue.
\<close>

theorem doneTimeout_fires:
  assumes "mSchedQueue s0 \<noteq> []" and "iterates (addAllDonesToLoop (initColors tty s0)) s"
    and "mSchedQueue s = (ts, h, DoneTimeout tg) # rest" and "mComplete s = 0"
    and "map_of (mDones s) tg = Some it"
  shows "(complete it = 0 \<longrightarrow>
            fst (run tty s0) = None \<and>
            mComplete (snd (run tty s0)) = ASYNC_COMPLETE_ERROR \<and>
            cites (errorMsg (snd (run tty s0))) ''Timeout'' \<and>
            mErrorTag (snd (run tty s0)) = tg) \<and>
         (complete it \<noteq> 0 \<longrightarrow>
            run_iteration s = (None, due_entry s) \<and>
            mComplete (due_entry s) = mComplete s \<and>
            errorMsg (due_entry s) = errorMsg s \<and>
            mErrorTag (due_entry s) = mErrorTag s \<and>
            mDones (due_entry s) = mDones s \<and>
            mSchedQueue (due_entry s) = rest)"
proof -
  define s2 where "s2 = due_entry s"
  have it: "run_iteration s = doneTimeout tg s2"
    using assms(3) by (simp add: run_iteration_due s2_def)
  have m2: "map_of (mDones s2) tg = Some it" using assms(5) by (simp add: s2_def due_entry_fields)
  have c2: "mComplete s2 \<noteq> ASYNC_COMPLETE_ERROR"
    using assms(4) by (simp add: s2_def due_entry_fields ASYNC_COMPLETE_ERROR_def)
  have ne: "mSchedQueue s \<noteq> []" using assms(3) by simp
  have pending: "fst (run tty s0) = None \<and>
            mComplete (snd (run tty s0)) = ASYNC_COMPLETE_ERROR \<and>
            cites (errorMsg (snd (run tty s0))) ''Timeout'' \<and>
            mErrorTag (snd (run tty s0)) = tg" if p: "complete it = 0"
  proof -
    have dt: "run_iteration s = doError ''Timeout'' tg True s2"
      using it m2 p by (simp add: doneTimeout_def)
    obtain s3 where s3: "doError ''Timeout'' tg True s2 = (None, s3)"
      and f: "mComplete s3 = ASYNC_COMPLETE_ERROR" "cites (errorMsg s3) ''Timeout''" "mErrorTag s3 = tg"
    proof (cases "tg = []")
      case True
      show ?thesis
        by (rule that [of "s2\<lparr>mComplete := ASYNC_COMPLETE_ERROR, errorMsg := ''Timeout'', mErrorTag := []\<rparr>"])
          (use True doError_untagged [OF c2, of "''Timeout''" True] in \<open>simp_all add: cites_self\<close>)
    next
      case False
      show ?thesis
        by (rule that [of "s2\<lparr>mComplete := ASYNC_COMPLETE_ERROR, mErrorTag := tg,
            errorMsg := ''done('' @ apos @ kColorTag s2 @ tg @ kColorNormal s2 @ apos @ ''): '' @ ''Timeout'',
            mDones := map_modify tg (\<lambda>d. d\<lparr>complete := ASYNC_COMPLETE_ERROR\<rparr>) (mDones s2)\<rparr>"])
          (use False doError_tagged [OF c2 False m2, of "''Timeout''" True]
              cites_suffix [of "''done('' @ apos @ kColorTag s2 @ tg @ kColorNormal s2 @ apos @ ''): ''" "''Timeout''"]
            in \<open>simp_all\<close>)
    qed
    have "mComplete s3 \<noteq> 0" using f(1) by (simp add: ASYNC_COMPLETE_ERROR_def)
    then have "run tty s0 = (None, s3)"
      using run_ends [OF assms(1,2) ne assms(4)] dt s3 by simp
    then show ?thesis using f by simp
  qed
  have resolved: "run_iteration s = (None, due_entry s)" if "complete it \<noteq> 0"
    using it m2 that by (simp add: doneTimeout_def s2_def)
  show ?thesis using pending resolved assms(3) by (simp add: due_entry_fields)
qed


theorem doneTimeout_fires_witness:
  "fst (run False timeout_example) = None \<and>
   mComplete (snd (run False timeout_example)) = ASYNC_COMPLETE_ERROR \<and>
   cites (errorMsg (snd (run False timeout_example))) ''Timeout'' \<and>
   mErrorTag (snd (run False timeout_example)) = ''_default'' \<and>
   run_iteration
     (snd (run_iteration (addAllDonesToLoop (initColors False late_timeout_example)))) =
   (None, due_entry
     (snd (run_iteration (addAllDonesToLoop (initColors False late_timeout_example))))) \<and>
   mSchedQueue (due_entry
     (snd (run_iteration (addAllDonesToLoop (initColors False late_timeout_example))))) = []"
proof -
  define a where "a = addAllDonesToLoop (initColors False timeout_example)"
  have a1: "mSchedQueue timeout_example \<noteq> []" by code_simp
  have a2: "mSchedQueue a = (3000, 1, DoneTimeout ''_default'') # [(4000, 0, UserCall [Elapse 0])]"
    unfolding a_def by code_simp
  have a3: "mComplete a = 0" unfolding a_def by code_simp
  have a4: "map_of (mDones a) ''_default'' =
      Some \<lparr>tag = ''_default'', complete = 0, deadline = 3000, order = 0, schedItem = Some 1\<rparr>"
    unfolding a_def by code_simp
  have a5: "iterates (addAllDonesToLoop (initColors False timeout_example)) a"
    unfolding a_def by (rule iterates_start)
  note p = doneTimeout_fires [OF a1 a5 a2 a3 a4]
  define b where "b = addAllDonesToLoop (initColors False late_timeout_example)"
  define c where "c = snd (run_iteration b)"
  have b1: "mSchedQueue late_timeout_example \<noteq> []" by code_simp
  have b2: "mSchedQueue b \<noteq> []" unfolding b_def by code_simp
  have b3: "mComplete b = 0" unfolding b_def by code_simp
  have "fst (run_iteration b) = None" unfolding b_def by code_simp
  then have b4: "run_iteration b = (None, c)" by (simp add: c_def prod_eq_iff)
  have b5: "errorMsg c = []" unfolding c_def b_def by code_simp
  have b6: "iterates (addAllDonesToLoop (initColors False late_timeout_example)) c"
    using iterates_next [OF iterates_start b2 b3 b4 b5] by (simp add: b_def)
  have c2: "mSchedQueue c = (1500, 3, DoneTimeout ''x'') # []" unfolding c_def b_def by code_simp
  have c3: "mComplete c = 0" unfolding c_def b_def by code_simp
  have c4: "map_of (mDones c) ''x'' =
      Some \<lparr>tag = ''x'', complete = 1, deadline = 1500, order = 0, schedItem = Some 3\<rparr>"
    unfolding c_def b_def by code_simp
  note q = doneTimeout_fires [OF b1 b6 c2 c3 c4]
  show ?thesis using p q by (simp add: c_def b_def)
qed

section \<open>Resolving a done() item again\<close>

text \<open>
  C3, as the claim states it, fails. In the run below the callback resolves \<open>b\<close>, resolves
  \<open>a\<close> twice and resolves \<open>b\<close> again. \<open>run\<close> ends in the state \<open>ASYNC_COMPLETE_ERROR\<close>, but
  of the second \<open>done("b")\<close> nothing is recorded: the error tag is \<open>a\<close> and the item \<open>b\<close> is
  still \<open>ASYNC_COMPLETE_SUCCESS\<close>, since \<open>doError\<close> returns at once when the overall state is
  \<open>ASYNC_COMPLETE_ERROR\<close> already. Nor does the message contain "already resolved".
\<close>

theorem resolve_twice_counterexample:
  "fst (run False resolve_twice_example) = None \<and>
   doneCalls (snd (run False resolve_twice_example)) = [''b'', ''a'', ''a'', ''b''] \<and>
   mComplete (snd (run False resolve_twice_example)) = ASYNC_COMPLETE_ERROR \<and>
   mErrorTag (snd (run False resolve_twice_example)) = ''a'' \<and>
   map_option complete (map_of (mDones (snd (run False resolve_twice_example))) ''b'') =
     Some ASYNC_COMPLETE_SUCCESS \<and>
   \<not> cites (errorMsg (snd (run False resolve_twice_example))) ''already resolved''"
  by code_simp

text \<open>
  C3, amended. A done() item that is not pending stays so through every scheduled call.
  \<open>done\<close> of an item that is not pending throws nothing and leaves the overall state
  \<open>ASYNC_COMPLETE_ERROR\<close>. If the overall state was not \<open>ASYNC_COMPLETE_ERROR\<close> before, the
  call records an error: the error tag is the item's tag, the message is not empty and the
  item, when its tag is not empty, becomes \<open>ASYNC_COMPLETE_ERROR\<close>. If it was, the call
  changes nothing: the first error is kept. When a callback run by \<open>run\<close> makes such a
  call, \<open>run\<close> ends in the state \<open>ASYNC_COMPLETE_ERROR\<close>.
\<close>

theorem done1_resolved_again:
  "(resolved s tg \<longrightarrow>
      fst (done1 tg s) = None \<and>
      mComplete (snd (done1 tg s)) = ASYNC_COMPLETE_ERROR \<and>
      resolved (snd (done1 tg s)) tg \<and>
      (mComplete s = ASYNC_COMPLETE_ERROR \<longrightarrow> done1 tg s = (None, s)) \<and>
      (mComplete s \<noteq> ASYNC_COMPLETE_ERROR \<longrightarrow>
         mErrorTag (snd (done1 tg s)) = tg \<and> errorMsg (snd (done1 tg s)) \<noteq> [] \<and>
         (tg \<noteq> [] \<longrightarrow>
            map_option complete (map_of (mDones (snd (done1 tg s))) tg) =
              Some ASYNC_COMPLETE_ERROR))) \<and>
   (resolved s k \<longrightarrow> resolved (snd (execItem c s)) k) \<and>
   (mSchedQueue s0 \<noteq> [] \<and> iterates (addAllDonesToLoop (initColors tty s0)) s1 \<and>
    in_callback s1 (CallDone tg) sp \<and> resolved sp tg \<longrightarrow>
      mComplete (snd (run tty s0)) = ASYNC_COMPLETE_ERROR)"
proof -
  have a: "fst (done1 tg s) = None \<and>
      mComplete (snd (done1 tg s)) = ASYNC_COMPLETE_ERROR \<and>
      resolved (snd (done1 tg s)) tg \<and>
      (mComplete s = ASYNC_COMPLETE_ERROR \<longrightarrow> done1 tg s = (None, s)) \<and>
      (mComplete s \<noteq> ASYNC_COMPLETE_ERROR \<longrightarrow>
         mErrorTag (snd (done1 tg s)) = tg \<and> errorMsg (snd (done1 tg s)) \<noteq> [] \<and>
         (tg \<noteq> [] \<longrightarrow>
            map_option complete (map_of (mDones (snd (done1 tg s))) tg) =
              Some ASYNC_COMPLETE_ERROR))" if r: "resolved s tg"
  proof -
    obtain it where it: "map_of (mDones s) tg = Some it" and c: "complete it \<noteq> 0"
      using r by (auto simp: resolved_def split: option.splits)
    define msg where "msg = ''done() already resloved, can't resolve again''"
    have d: "done1 tg s = doError msg tg True s"
      using done1_resolved [OF it c] by (simp add: msg_def)
    have m: "msg \<noteq> []" by (simp add: msg_def)
    have 1: "fst (doError msg tg True s) = None"
    proof (cases "mComplete s = ASYNC_COMPLETE_ERROR")
      case True
      then show ?thesis by (simp add: doError_error)
    next
      case False
      show ?thesis
      proof (cases "tg = []")
        case True
        then show ?thesis using doError_untagged [OF False, of msg True] by simp
      next
        case ne: False
        then show ?thesis using doError_tagged [OF False ne it, of msg True] by simp
      qed
    qed
    have 2: "mErrorTag (snd (doError msg tg True s)) = tg \<and>
        errorMsg (snd (doError msg tg True s)) \<noteq> [] \<and>
        (tg \<noteq> [] \<longrightarrow> map_option complete (map_of (mDones (snd (doError msg tg True s))) tg) =
              Some ASYNC_COMPLETE_ERROR)" if ne: "mComplete s \<noteq> ASYNC_COMPLETE_ERROR"
    proof (cases "tg = []")
      case True
      then show ?thesis using doError_untagged [OF ne, of msg True] m by simp
    next
      case False
      then show ?thesis using doError_tagged [OF ne False it, of msg True] it
        by (simp add: map_of_map_modify)
    qed
    show ?thesis
      unfolding d using 1 2 mComplete_doError [of msg tg True s] resolved_doError [OF r, of msg tg True]
        doError_error [of s msg tg True]
      by blast
  qed
  have b: "resolved s k \<longrightarrow> resolved (snd (execItem c s)) k"
    using resolved_execItem by blast
  have c: "mComplete (snd (run tty s0)) = ASYNC_COMPLETE_ERROR"
    if h: "mSchedQueue s0 \<noteq> []" "iterates (addAllDonesToLoop (initColors tty s0)) s1"
      "in_callback s1 (CallDone tg) sp" "resolved sp tg"
  proof -
    define sp' where "sp' = sp\<lparr>doneCalls := doneCalls sp @ [tg]\<rparr>"
    have r': "resolved sp' tg" using h(4) by (simp add: resolved_def sp'_def)
    obtain it where it: "map_of (mDones sp') tg = Some it" and c: "complete it \<noteq> 0"
      using r' by (auto simp: resolved_def split: option.splits)
    have "mComplete (snd (done1 tg sp')) = ASYNC_COMPLETE_ERROR"
      using done1_resolved [OF it c] by (simp add: mComplete_doError)
    then have "mComplete (snd (execCall (CallDone tg) sp)) = ASYNC_COMPLETE_ERROR"
      by (simp add: sp'_def)
    then show ?thesis using run_callback_error [OF h(1-3)] by simp
  qed
  show ?thesis using a b c by blast
qed


theorem done1_resolved_again_witness:
  "resolved (snd (execCalls [CallDone ''b'', CallDone ''a'']
      (due_entry (addAllDonesToLoop (initColors False resolve_twice_example))))) ''a'' \<and>
   fst (done1 ''a'' (snd (execCalls [CallDone ''b'', CallDone ''a'']
      (due_entry (addAllDonesToLoop (initColors False resolve_twice_example)))))) = None \<and>
   mErrorTag (snd (done1 ''a'' (snd (execCalls [CallDone ''b'', CallDone ''a'']
      (due_entry (addAllDonesToLoop (initColors False resolve_twice_example))))))) = ''a'' \<and>
   resolved (snd (execItem (UserCall [CallDone ''a'']) (snd (execCalls [CallDone ''b'', CallDone ''a'']
      (due_entry (addAllDonesToLoop (initColors False resolve_twice_example))))))) ''a'' \<and>
   mComplete (snd (run False resolve_twice_example)) = ASYNC_COMPLETE_ERROR"
proof -
  define A where "A = addAllDonesToLoop (initColors False resolve_twice_example)"
  define SP where "SP = snd (execCalls [CallDone ''b'', CallDone ''a''] (due_entry A))"
  have r: "resolved SP ''a''" unfolding SP_def A_def by code_simp
  have n: "mComplete SP \<noteq> ASYNC_COMPLETE_ERROR" unfolding SP_def A_def by code_simp
  have q0: "mSchedQueue resolve_twice_example \<noteq> []" by code_simp
  have q: "mSchedQueue A \<noteq> []" unfolding A_def by code_simp
  have z: "mComplete A = 0" unfolding A_def by code_simp
  have u: "snd (snd (hd (mSchedQueue A))) =
      UserCall ([CallDone ''b'', CallDone ''a''] @ CallDone ''a'' # [CallDone ''b''])"
    unfolding A_def by code_simp
  have "fst (execCalls [CallDone ''b'', CallDone ''a''] (due_entry A)) = None"
    unfolding A_def by code_simp
  then have p: "execCalls [CallDone ''b'', CallDone ''a''] (due_entry A) = (None, SP)"
    by (simp add: SP_def prod_eq_iff)
  have ic: "in_callback A (CallDone ''a'') SP"
    using q z u p by (rule in_callback_top)
  have i: "iterates (addAllDonesToLoop (initColors False resolve_twice_example)) A"
    unfolding A_def by (rule iterates_start)
  note t = done1_resolved_again [of SP "''a''" "''a''" "UserCall [CallDone ''a'']"
      resolve_twice_example False A SP]
  show ?thesis
    unfolding A_def [symmetric] SP_def [symmetric] using t r n q0 i ic by blast
qed

section \<open>Resolving in order\<close>

text \<open>
  C1, as the claim states it, fails, in three ways. The items \<open>a\<close>, \<open>b\<close>, \<open>c\<close> have the
  orders 1, 2, 3 and the callback resolves \<open>b\<close>, then \<open>c\<close>. Both are out of sequence, but
  only the first is recorded: \<open>run\<close> ends in the state \<open>ASYNC_COMPLETE_ERROR\<close> with the error
  tag \<open>b\<close> and the message of \<open>b\<close>, and \<open>c\<close> is left pending, since \<open>doError\<close> returns at
  once when the overall state is \<open>ASYNC_COMPLETE_ERROR\<close> already. That \<open>done("c")\<close> has
  erased the timeout of \<open>c\<close>, so when the callback resolves \<open>c\<close> once more, \<open>done\<close> erases
  through an iterator that is no longer valid, which is undefined. Last, the item \<open>a\<close> has
  the order 1 and the callback catches the usage error of a \<open>done\<close> with an unknown tag:
  the error message that \<open>usageError\<close> has set makes the loop stop, and \<open>run\<close> returns in
  the state \<open>ASYNC_COMPLETE_SUCCESS\<close> although \<open>a\<close> was never resolved.
\<close>

theorem out_of_order_counterexample:
  "map_option order (map_of (mDones out_of_order_example) ''c'') = Some 3 \<and>
   fst (run False out_of_order_example) = None \<and>
   doneCalls (snd (run False out_of_order_example)) = [''b'', ''c''] \<and>
   mComplete (snd (run False out_of_order_example)) = ASYNC_COMPLETE_ERROR \<and>
   mErrorTag (snd (run False out_of_order_example)) = ''b'' \<and>
   errorMsg (snd (run False out_of_order_example)) =
     ''done('' @ apos @ ''b'' @ apos @
     ''): Did not resolve in expected order. Expected: 2, actual: 1'' \<and>
   map_option complete (map_of (mDones (snd (run False out_of_order_example))) ''c'') = Some 0 \<and>
   fst (run False out_of_order_again_example) = Some (Undefined InvalidIterator) \<and>
   map_option order (map_of (mDones caught_example) ''a'') = Some 1 \<and>
   fst (run False caught_example) = None \<and>
   mComplete (snd (run False caught_example)) = ASYNC_COMPLETE_SUCCESS \<and>
   doneCalls (snd (run False caught_example)) = [''zz''] \<and>
   map_option complete (map_of (mDones (snd (run False caught_example))) ''a'') = Some 0"
  by code_simp

text \<open>
  C1, amended. A callback is a sequence of calls of \<open>done\<close>, \<open>error\<close>, \<open>abort\<close> and
  \<open>schedCall\<close>, of assignments to \<open>errorMsg\<close> and \<open>jitterPct\<close> and of other work, in try
  blocks or not.

  When \<open>run\<close>, called on an unused loop, returns in the state \<open>ASYNC_COMPLETE_SUCCESS\<close> and
  with an empty error message, a done() item registered with the order \<open>k > 0\<close> is the
  \<open>k\<close>-th of the items with an order other than 0 that the callbacks resolved, and it is
  resolved once.

  \<open>done\<close> of a pending item whose order is neither 0 nor the counter \<open>mLastOrderedDoneNo\<close>
  plus one, and whose timeout is in the queue, throws nothing and leaves the overall state
  \<open>ASYNC_COMPLETE_ERROR\<close>. If the overall state was not \<open>ASYNC_COMPLETE_ERROR\<close> before, the
  error tag is the item's tag and the message contains the order expected and the value
  of the counter; if it was, the error tag, the message and the done() items stay as they
  were.

  In a run on a loop that was unused, the timeout of a pending item is in the queue
  whenever a callback makes a call while the overall state is 0.

  When a callback run by \<open>run\<close> makes such a call of \<open>done\<close>, \<open>run\<close> ends in the state
  \<open>ASYNC_COMPLETE_ERROR\<close>.
\<close>

theorem ordered_resolution:
  "(unused s0 \<and> run tty s0 = (None, s') \<and> mComplete s' = ASYNC_COMPLETE_SUCCESS \<and>
    errorMsg s' = [] \<and> map_of (mDones s0) tg = Some it \<and> 0 < order it \<longrightarrow>
      nat (order it) \<le> length (ordered_resolves s') \<and>
      (\<forall>j < length (ordered_resolves s').
         (ordered_resolves s' ! j = tg) = (int j + 1 = order it))) \<and>
   (map_of (mDones s) tg = Some it \<and> complete it = 0 \<and> order it \<noteq> 0 \<and>
    order it \<noteq> mLastOrderedDoneNo s + 1 \<and> erase (schedItem it) (mSchedQueue s) = Inr q \<longrightarrow>
      fst (done1 tg s) = None \<and>
      mComplete (snd (done1 tg s)) = ASYNC_COMPLETE_ERROR \<and>
      (mComplete s \<noteq> ASYNC_COMPLETE_ERROR \<longrightarrow>
         mErrorTag (snd (done1 tg s)) = tg \<and>
         cites (errorMsg (snd (done1 tg s)))
           (''Expected: '' @ to_string (order it) @ '', actual: '' @
            to_string (mLastOrderedDoneNo s + 1))) \<and>
      (mComplete s = ASYNC_COMPLETE_ERROR \<longrightarrow>
         mErrorTag (snd (done1 tg s)) = mErrorTag s \<and>
         errorMsg (snd (done1 tg s)) = errorMsg s \<and>
         mDones (snd (done1 tg s)) = mDones s)) \<and>
   (unused s0 \<and> iterates (addAllDonesToLoop (initColors tty s0)) s1 \<and>
    in_callback s1 c sp \<and> mComplete sp = 0 \<and>
    map_of (mDones sp) tg = Some it \<and> complete it = 0 \<longrightarrow>
      (\<exists>q'. erase (schedItem it) (mSchedQueue sp) = Inr q')) \<and>
   (mSchedQueue s0 \<noteq> [] \<and> iterates (addAllDonesToLoop (initColors tty s0)) s1 \<and>
    in_callback s1 (CallDone tg) sp \<and>
    map_of (mDones sp) tg = Some it \<and> complete it = 0 \<and> order it \<noteq> 0 \<and>
    order it \<noteq> mLastOrderedDoneNo sp + 1 \<and> erase (schedItem it) (mSchedQueue sp) = Inr q \<longrightarrow>
      mComplete (snd (run tty s0)) = ASYNC_COMPLETE_ERROR)"
proof -
  have a: "nat (order it) \<le> length (ordered_resolves s') \<and>
      (\<forall>j < length (ordered_resolves s').
         (ordered_resolves s' ! j = tg) = (int j + 1 = order it))"
    if "unused s0" "run tty s0 = (None, s')" "mComplete s' = ASYNC_COMPLETE_SUCCESS"
      "errorMsg s' = []" "map_of (mDones s0) tg = Some it" "0 < order it"
    using that by (rule success_position)
  have b: "fst (done1 tg s) = None \<and>
      mComplete (snd (done1 tg s)) = ASYNC_COMPLETE_ERROR \<and>
      (mComplete s \<noteq> ASYNC_COMPLETE_ERROR \<longrightarrow>
         mErrorTag (snd (done1 tg s)) = tg \<and>
         cites (errorMsg (snd (done1 tg s)))
           (''Expected: '' @ to_string (order it) @ '', actual: '' @
            to_string (mLastOrderedDoneNo s + 1))) \<and>
      (mComplete s = ASYNC_COMPLETE_ERROR \<longrightarrow>
         mErrorTag (snd (done1 tg s)) = mErrorTag s \<and>
         errorMsg (snd (done1 tg s)) = errorMsg s \<and>
         mDones (snd (done1 tg s)) = mDones s)"
    if h: "map_of (mDones s) tg = Some it" "complete it = 0" "order it \<noteq> 0"
      "order it \<noteq> mLastOrderedDoneNo s + 1" "erase (schedItem it) (mSchedQueue s) = Inr q"
  proof -
    define w where "w = ''Expected: '' @ to_string (order it) @ '', actual: '' @
            to_string (mLastOrderedDoneNo s + 1)"
    define msg where "msg = ''Did not resolve in expected order. '' @ w"
    define s2 where "s2 = s\<lparr>mSchedQueue := q, mLastOrderedDoneNo := mLastOrderedDoneNo s + 1\<rparr>"
    have d: "done1 tg s = doError msg tg True s2"
      using done1_out_of_order [OF h(1,2,5,3,4)] by (simp add: msg_def w_def s2_def)
    have m2: "map_of (mDones s2) tg = Some it" using h(1) by (simp add: s2_def)
    have f2: "mComplete s2 = mComplete s" "mErrorTag s2 = mErrorTag s" "errorMsg s2 = errorMsg s"
      "mDones s2 = mDones s" by (simp_all add: s2_def)
    have 1: "fst (doError msg tg True s2) = None \<and>
        mErrorTag (snd (doError msg tg True s2)) = tg \<and>
        cites (errorMsg (snd (doError msg tg True s2))) w"
      if ne: "mComplete s2 \<noteq> ASYNC_COMPLETE_ERROR"
    proof (cases "tg = []")
      case True
      then show ?thesis
        using doError_untagged [OF ne, of msg True]
          cites_suffix [of "''Did not resolve in expected order. ''" w]
        by (simp add: msg_def)
    next
      case False
      then show ?thesis
        using doError_tagged [OF ne False m2, of msg True]
          cites_suffix [of "''done('' @ apos @ kColorTag s2 @ tg @ kColorNormal s2 @ apos @
              ''): '' @ ''Did not resolve in expected order. ''" w]
        by (simp add: msg_def)
    qed
    have 2: "doError msg tg True s2 = (None, s2)" if "mComplete s2 = ASYNC_COMPLETE_ERROR"
      using that by (rule doError_error)
    show ?thesis
      unfolding d w_def [symmetric]
      using 1 2 f2 mComplete_doError [of msg tg True s2] by (cases "mComplete s = ASYNC_COMPLETE_ERROR") simp_all
  qed
  have c: "\<exists>q'. erase (schedItem it) (mSchedQueue sp) = Inr q'"
    if "unused s0" "iterates (addAllDonesToLoop (initColors tty s0)) s1"
      "in_callback s1 c sp" "mComplete sp = 0"
      "map_of (mDones sp) tg = Some it" "complete it = 0"
    using that by (rule in_callback_erase)
  have d: "mComplete (snd (run tty s0)) = ASYNC_COMPLETE_ERROR"
    if h: "mSchedQueue s0 \<noteq> []" "iterates (addAllDonesToLoop (initColors tty s0)) s1"
      "in_callback s1 (CallDone tg) sp"
      "map_of (mDones sp) tg = Some it" "complete it = 0" "order it \<noteq> 0"
      "order it \<noteq> mLastOrderedDoneNo sp + 1" "erase (schedItem it) (mSchedQueue sp) = Inr q"
  proof -
    define sl where "sl = sp\<lparr>doneCalls := doneCalls sp @ [tg]\<rparr>"
    have "done1 tg sl =
     doError (''Did not resolve in expected order. Expected: '' @ to_string (order it) @
              '', actual: '' @ to_string (mLastOrderedDoneNo sl + 1)) tg True
       (sl\<lparr>mSchedQueue := q, mLastOrderedDoneNo := mLastOrderedDoneNo sl + 1\<rparr>)"
      by (rule done1_out_of_order) (use h in \<open>simp_all add: sl_def\<close>)
    then have "mComplete (snd (done1 tg sl)) = ASYNC_COMPLETE_ERROR"
      by (simp add: mComplete_doError)
    then have "mComplete (snd (execCall (CallDone tg) sp)) = ASYNC_COMPLETE_ERROR"
      by (simp add: sl_def)
    then show ?thesis using run_callback_error [OF h(1-3)] by simp
  qed
  show ?thesis using a b c d by blast
qed

theorem ordered_resolution_witness:
  "ordered_resolves (snd (run False example_test)) ! 1 = ''event 2'' \<and>
   mErrorTag (snd (done1 ''b''
     (due_entry (addAllDonesToLoop (initColors False out_of_order_example))))) = ''b'' \<and>
   \<not> isl (erase (Some 2)
     (mSchedQueue (due_entry (addAllDonesToLoop (initColors False out_of_order_example))))) \<and>
   mComplete (snd (run False out_of_order_example)) = ASYNC_COMPLETE_ERROR"
proof -
  define S' where "S' = snd (run False example_test)"
  define it2 where
    "it2 = \<lparr>tag = ''event 2'', complete = 0, deadline = 4000, order = 2, schedItem = None\<rparr>"
  have u: "unused example_test" by code_simp
  have "fst (run False example_test) = None" by code_simp
  then have r: "run False example_test = (None, S')" by (simp add: S'_def prod_eq_iff)
  have c: "mComplete S' = ASYNC_COMPLETE_SUCCESS" unfolding S'_def by code_simp
  have e: "errorMsg S' = []" unfolding S'_def by code_simp
  have m: "map_of (mDones example_test) ''event 2'' = Some it2" unfolding it2_def by code_simp
  have o: "0 < order it2" "order it2 = 2" by (simp_all add: it2_def)
  have p: "nat (order it2) \<le> length (ordered_resolves S') \<and>
      (\<forall>j < length (ordered_resolves S').
         (ordered_resolves S' ! j = ''event 2'') = (int j + 1 = order it2))"
    using ordered_resolution [of example_test False S' "''event 2''" it2] u r c e m o(1) by blast
  then have "1 < length (ordered_resolves S')" using o(2) by simp
  then have w1: "ordered_resolves S' ! 1 = ''event 2''" using p o(2) by simp
  define A where "A = addAllDonesToLoop (initColors False out_of_order_example)"
  define D where "D = due_entry A"
  define b where
    "b = \<lparr>tag = ''b'', complete = 0, deadline = 3000, order = 2, schedItem = Some 2\<rparr>"
  have uo: "unused out_of_order_example" by code_simp
  have q0: "mSchedQueue out_of_order_example \<noteq> []" by code_simp
  have i: "iterates (addAllDonesToLoop (initColors False out_of_order_example)) A"
    unfolding A_def by (rule iterates_start)
  have qa: "mSchedQueue A \<noteq> []" unfolding A_def by code_simp
  have za: "mComplete A = 0" unfolding A_def by code_simp
  have zd: "mComplete D = 0" unfolding D_def A_def by code_simp
  have ua: "snd (snd (hd (mSchedQueue A))) = UserCall ([] @ CallDone ''b'' # [CallDone ''c''])"
    unfolding A_def by code_simp
  have "execCalls [] (due_entry A) = (None, D)" by (simp add: D_def)
  then have ic: "in_callback A (CallDone ''b'') D"
    using qa za ua by - (rule in_callback_top)
  have mb: "map_of (mDones D) ''b'' = Some b" unfolding D_def A_def b_def by code_simp
  have cb: "complete b = 0" "order b \<noteq> 0" "schedItem b = Some 2" by (simp_all add: b_def)
  have nb: "order b \<noteq> mLastOrderedDoneNo D + 1" unfolding D_def A_def b_def by code_simp
  have eb: "erase (schedItem b) (mSchedQueue D) =
      Inr [(3000, 1, DoneTimeout ''a''), (3000, 3, DoneTimeout ''c'')]"
    unfolding D_def A_def b_def by code_simp
  have ne: "mComplete D \<noteq> ASYNC_COMPLETE_ERROR" unfolding D_def A_def by code_simp
  note t = ordered_resolution [of out_of_order_example False _ "''b''" b D
      "[(3000, 1, DoneTimeout ''a''), (3000, 3, DoneTimeout ''c'')]" A "CallDone ''b''" D]
  have w2: "mErrorTag (snd (done1 ''b'' D)) = ''b''"
    using t mb cb nb eb ne by blast
  have "\<exists>q'. erase (schedItem b) (mSchedQueue D) = Inr q'"
    using t uo i ic zd mb cb(1) by blast
  then have w3: "\<not> isl (erase (Some 2) (mSchedQueue D))" using cb(3) by auto
  have w4: "mComplete (snd (run False out_of_order_example)) = ASYNC_COMPLETE_ERROR"
    using t q0 i ic mb cb nb eb by blast
  show ?thesis using w1 w2 w3 w4 by (simp add: S'_def D_def A_def)
qed

end
